theory Spec2Isabelle
  imports Main "HOL-Library.Sublist"
begin

section \<open>Strings of the script\<close>

text \<open>
  The script \<^verbatim>\<open>wiki.js\<close> works on JavaScript strings. They are modelled as
  \<^typ>\<open>string\<close>, a list of 8-bit characters, and the model covers ASCII text: the
  platform functions \<^verbatim>\<open>toLowerCase\<close>, \<^verbatim>\<open>trim\<close> and the regular-expression
  classes \<^verbatim>\<open>\w\<close> and \<^verbatim>\<open>\s\<close> are given with their ASCII behaviour, and a character
  above 127 is caseless, not white space and not a word character. The few non-ASCII
  glyphs of the script's own template literals are written as their UTF-8 bytes.
\<close>

definition lower_char :: "char \<Rightarrow> char" where
  "lower_char c =
     (let n = (of_char c :: nat) in if 65 \<le> n \<and> n \<le> 90 then char_of (n + 32) else c)"

definition toLowerCase :: "string \<Rightarrow> string" where
  "toLowerCase s = map lower_char s"

definition isWhiteSpace :: "char \<Rightarrow> bool" where
  "isWhiteSpace c = ((of_char c :: nat) \<in> {9, 10, 11, 12, 13, 32})"

definition trim :: "string \<Rightarrow> string" where
  "trim s = rev (dropWhile isWhiteSpace (rev (dropWhile isWhiteSpace s)))"

fun join :: "string \<Rightarrow> string list \<Rightarrow> string" where
  "join sep [] = []"
| "join sep [x] = x"
| "join sep (x # y # ys) = x @ sep @ join sep (y # ys)"

text \<open>\<^verbatim>\<open>hay.includes(q)\<close>: some position of \<open>hay\<close> starts a copy of \<open>q\<close>.\<close>

fun str_includes :: "string \<Rightarrow> string \<Rightarrow> bool" where
  "str_includes [] q = (q = [])"
| "str_includes (c # cs) q = (prefix q (c # cs) \<or> str_includes cs q)"

text \<open>
  \<^verbatim>\<open>escapeHtml\<close> assigns the string to \<^verbatim>\<open>textContent\<close> of a fresh element and reads
  \<^verbatim>\<open>innerHTML\<close> back. The platform serialises a text node by replacing the ampersand
  and the two angle brackets by their entities; it leaves both quote characters as they
  are (only attribute values get the double quote escaped).
\<close>

definition escape_char :: "char \<Rightarrow> string" where
  "escape_char c =
     (if c = CHR ''&'' then ''&amp;''
      else if c = CHR ''<'' then ''&lt;''
      else if c = CHR ''>'' then ''&gt;''
      else [c])"

definition escapeHtml :: "string \<Rightarrow> string" where
  "escapeHtml str = concat (map escape_char str)"

section \<open>Search\<close>

text \<open>
  One entry of \<^verbatim>\<open>WIKI_CONFIG.searchIndex\<close>. \<^verbatim>\<open>desc\<close> and \<^verbatim>\<open>tags\<close> may be
  missing from the object (\<open>None\<close>).
\<close>

record PageDescriptor =
  title :: string
  url :: string
  desc :: "string option"
  tags :: "string list option"

text \<open>\<^verbatim>\<open>p.desc || ''\<close> and \<^verbatim>\<open>p.tags || []\<close>: a missing field and an empty string
  are both falsy; an empty array is truthy and is itself.\<close>

definition desc_or_empty :: "PageDescriptor \<Rightarrow> string" where
  "desc_or_empty p = (case desc p of None \<Rightarrow> [] | Some d \<Rightarrow> d)"

definition tags_or_empty :: "PageDescriptor \<Rightarrow> string list" where
  "tags_or_empty p = (case tags p of None \<Rightarrow> [] | Some ts \<Rightarrow> ts)"

text \<open>\<^verbatim>\<open>WIKI_CONFIG.searchIndex || []\<close>: the index is \<^verbatim>\<open>null\<close> until
  \<^verbatim>\<open>buildSearchIndex\<close> has run.\<close>

definition index_or_empty :: "PageDescriptor list option \<Rightarrow> PageDescriptor list" where
  "index_or_empty si = (case si of None \<Rightarrow> [] | Some ps \<Rightarrow> ps)"

text \<open>The predicate of the \<^verbatim>\<open>filter\<close> call in \<^verbatim>\<open>_runSearch\<close>, for the lower-cased
  query \<open>q\<close>.\<close>

definition searchable_text :: "PageDescriptor \<Rightarrow> string" where
  "searchable_text p =
     title p @ '' '' @ desc_or_empty p @ '' '' @ join '' '' (tags_or_empty p)"

definition page_matches :: "string \<Rightarrow> PageDescriptor \<Rightarrow> bool" where
  "page_matches q p = str_includes (toLowerCase (searchable_text p)) q"

definition ellipsis :: string where
  "ellipsis = [CHR 0xE2, CHR 0x80, CHR 0xA6]"

definition start_typing_html :: string where
  \<open>start_typing_html = ''<div class="search-empty">Start typing to search'' @ ellipsis @ ''</div>''\<close>

definition no_results_html :: "string \<Rightarrow> string" where
  \<open>no_results_html query =
     ''<div class="search-empty">No results for "<strong>'' @ escapeHtml query
       @ ''</strong>".</div>''\<close>

definition result_item_html :: "PageDescriptor \<Rightarrow> string" where
  \<open>result_item_html m =
     ''\<newline>      <div class="search-result-item" role="option" tabindex="0" data-url="''
       @ escapeHtml (url m) @ ''">''
       @ ''\<newline>        <div class="search-result-title">'' @ escapeHtml (title m) @ ''</div>''
       @ ''\<newline>        ''
       @ (if desc_or_empty m \<noteq> []
          then ''<div class="search-result-desc">'' @ escapeHtml (desc_or_empty m) @ ''</div>''
          else [])
       @ ''\<newline>      </div>''\<close>

text \<open>
  \<^verbatim>\<open>_runSearch(query, resultsEl)\<close>. The function writes \<^verbatim>\<open>resultsEl.innerHTML\<close>; the
  model returns what it writes, together with the array \<^verbatim>\<open>matches\<close> the markup was
  rendered from (empty on the two paths that return before rendering a list).
\<close>

record search_view =
  results :: "PageDescriptor list"
  innerHTML :: string

definition runSearch :: "string \<Rightarrow> PageDescriptor list option \<Rightarrow> search_view" where
  "runSearch query searchIndex =
     (if trim query = [] then \<lparr>results = [], innerHTML = start_typing_html\<rparr>
      else
        let q = toLowerCase query;
            matches = take 10 (filter (page_matches q) (index_or_empty searchIndex))
        in if matches = [] then \<lparr>results = [], innerHTML = no_results_html query\<rparr>
           else \<lparr>results = matches, innerHTML = concat (map result_item_html matches)\<rparr>)"

text \<open>
  The errors the script can run into: \<^verbatim>\<open>TypeError\<close> when a property of \<^verbatim>\<open>null\<close> is read
  or written or a value that is no function is called, \<^verbatim>\<open>SyntaxError\<close> from
  \<^verbatim>\<open>JSON.parse\<close>.
\<close>

datatype js_error = SyntaxError | TypeError

text \<open>
  The call \<^verbatim>\<open>this._runSearch(overlayInput.value, results)\<close> with its second argument:
  \<^verbatim>\<open>results\<close> is what \<^verbatim>\<open>$('#search-results')\<close> answered, \<open>None\<close> for \<^verbatim>\<open>null\<close> and
  else the markup the element holds. Each of the three paths of \<^verbatim>\<open>_runSearch\<close> assigns
  \<^verbatim>\<open>resultsEl.innerHTML\<close>, which throws a \<^verbatim>\<open>TypeError\<close> on \<^verbatim>\<open>null\<close>; nothing else
  in the function throws for a string and a catalog of descriptors.
\<close>

definition runSearch_call ::
  "string \<Rightarrow> PageDescriptor list option \<Rightarrow> string option \<Rightarrow> js_error + search_view" where
  "runSearch_call query searchIndex resultsEl =
     (case resultsEl of
        None \<Rightarrow> Inl TypeError
      | Some old \<Rightarrow> Inr (runSearch query searchIndex))"

text \<open>The test as the specification words it: the three parts concatenated, the tags
  joined by spaces, nothing between the parts.\<close>

definition spec_searchable_text :: "PageDescriptor \<Rightarrow> string" where
  "spec_searchable_text p = title p @ desc_or_empty p @ join '' '' (tags_or_empty p)"

definition spec_matches :: "string \<Rightarrow> PageDescriptor \<Rightarrow> bool" where
  "spec_matches query p = sublist (toLowerCase query) (toLowerCase (spec_searchable_text p))"


text \<open>A case variation of a string: the same string up to the case of its letters.\<close>

definition case_variation :: "string \<Rightarrow> string \<Rightarrow> bool" where
  "case_variation q t = (toLowerCase q = toLowerCase t)"

text \<open>The two-page catalog of the specification's example scenario.\<close>

definition algebra_basics :: PageDescriptor where
  "algebra_basics = \<lparr>title = ''Algebra Basics'', url = ''a.html'', desc = None, tags = Some [''math'']\<rparr>"

definition roman_history :: PageDescriptor where
  "roman_history = \<lparr>title = ''Roman History'', url = ''b.html'', desc = None, tags = Some [''history'']\<rparr>"

section \<open>Table of contents\<close>

subsection \<open>\<^verbatim>\<open>slugify\<close>\<close>

text \<open>The classes \<^verbatim>\<open>\w\<close> and \<^verbatim>\<open>[\s_-]\<close> of the three regular expressions.\<close>

definition isWordChar :: "char \<Rightarrow> bool" where
  "isWordChar c =
     (let n = (of_char c :: nat)
      in (48 \<le> n \<and> n \<le> 57) \<or> (65 \<le> n \<and> n \<le> 90) \<or> (97 \<le> n \<and> n \<le> 122) \<or> n = 95)"

definition isSeparator :: "char \<Rightarrow> bool" where
  "isSeparator c = (isWhiteSpace c \<or> c = CHR ''_'' \<or> c = CHR ''-'')"

text \<open>\<^verbatim>\<open>.replace(/[^\w\s-]/g, '')\<close>\<close>

definition strip_symbols :: "string \<Rightarrow> string" where
  "strip_symbols s = filter (\<lambda>c. isWordChar c \<or> isWhiteSpace c \<or> c = CHR ''-'') s"

text \<open>\<^verbatim>\<open>.replace(/[\s_-]+/g, '-')\<close>: every maximal run of separators becomes one hyphen.\<close>

function collapse_separators :: "string \<Rightarrow> string" where
  "collapse_separators [] = []"
| "collapse_separators (c # cs) =
     (if isSeparator c then CHR ''-'' # collapse_separators (dropWhile isSeparator cs)
      else c # collapse_separators cs)"
  by pat_completeness auto
termination
  by (relation "measure length") (auto simp: less_Suc_eq_le length_dropWhile_le)

text \<open>\<^verbatim>\<open>.replace(/^-+|-+$/g, '')\<close>\<close>

definition trim_hyphens :: "string \<Rightarrow> string" where
  "trim_hyphens s = rev (dropWhile (\<lambda>c. c = CHR ''-'') (rev (dropWhile (\<lambda>c. c = CHR ''-'') s)))"

definition slugify :: "string \<Rightarrow> string" where
  "slugify text = trim_hyphens (collapse_separators (strip_symbols (toLowerCase text)))"

text \<open>A non-negative integer appended to a string: its decimal digits.\<close>

definition digit_char :: "nat \<Rightarrow> char" where
  "digit_char n = char_of (48 + n)"

fun number_to_string :: "nat \<Rightarrow> string" where
  "number_to_string n =
     (if n < 10 then [digit_char n]
      else number_to_string (n div 10) @ [digit_char (n mod 10)])"

declare number_to_string.simps [simp del]

subsection \<open>Headings and entries\<close>

text \<open>
  The elements \<^verbatim>\<open>$$('h2, h3, h4', content)\<close> returns: the tag is one of three, \<^verbatim>\<open>id\<close>
  is the empty string when the element has none, \<^verbatim>\<open>textContent\<close> is its text.
\<close>

datatype heading_tag = H2 | H3 | H4

record heading =
  tagName :: heading_tag
  heading_id :: string
  textContent :: string

text \<open>\<^verbatim>\<open>parseInt(h.tagName[1])\<close>\<close>

fun level_of_tag :: "heading_tag \<Rightarrow> nat" where
  "level_of_tag H2 = 2"
| "level_of_tag H3 = 3"
| "level_of_tag H4 = 4"

record TOCEntry =
  toc_id :: string
  toc_text :: string
  toc_level :: nat

text \<open>
  \<^verbatim>\<open>.replace(/\[.*?\]/g, '')\<close>: from an opening bracket the lazy match runs to the first
  closing bracket, unless a line terminator comes first (the dot does not match one); a
  bracket that starts no match stays. \<open>close_index cs\<close> is the number of characters
  before that closing bracket.
\<close>

definition isLineTerminator :: "char \<Rightarrow> bool" where
  "isLineTerminator c = ((of_char c :: nat) \<in> {10, 13})"

fun close_index :: "string \<Rightarrow> nat option" where
  "close_index [] = None"
| "close_index (c # cs) =
     (if c = CHR '']'' then Some 0
      else if isLineTerminator c then None
      else map_option Suc (close_index cs))"

function strip_citations :: "string \<Rightarrow> string" where
  "strip_citations [] = []"
| "strip_citations (c # cs) =
     (if c = CHR ''[''
      then (case close_index cs of
              Some k \<Rightarrow> strip_citations (drop (Suc k) cs)
            | None \<Rightarrow> c # strip_citations cs)
      else c # strip_citations cs)"
  by pat_completeness auto
termination
  by (relation "measure length") auto

text \<open>
  The callback of \<^verbatim>\<open>headings.map((h, i) => ...)\<close> in \<^verbatim>\<open>buildTOC\<close>: it gives the
  heading an id when it has none (a mutation of the element) and returns the entry.
\<close>

definition assign_id :: "nat \<Rightarrow> heading \<Rightarrow> heading" where
  "assign_id i h =
     (if heading_id h = []
      then h\<lparr>heading_id := slugify (textContent h) @ ''-'' @ number_to_string i\<rparr>
      else h)"

definition toc_entry :: "heading \<Rightarrow> TOCEntry" where
  "toc_entry h =
     \<lparr>toc_id = heading_id h,
      toc_text = trim (strip_citations (textContent h)),
      toc_level = level_of_tag (tagName h)\<rparr>"

subsection \<open>Markup of the two outlines\<close>

text \<open>
  The markup strings are built by appending pieces. A piece is a fixed text of a
  template, an opening or closing tag of a nested list, or the list item of an entry;
  \<open>serialize\<close> gives the characters the script appends for it, and the markup written to
  \<^verbatim>\<open>innerHTML\<close> is the concatenation.
\<close>

datatype piece =
    Lit string
  | OlOpen
  | OlClose
  | NestedItem TOCEntry
  | SidebarItem TOCEntry

fun serialize :: "piece \<Rightarrow> string" where
  \<open>serialize (Lit s) = s\<close>
| \<open>serialize OlOpen = ''<ol>''\<close>
| \<open>serialize OlClose = ''</ol>''\<close>
| \<open>serialize (NestedItem item) =
     ''<li class="toc-h'' @ number_to_string (toc_level item) @ ''"><a href="#'' @ toc_id item
       @ ''">'' @ escapeHtml (toc_text item) @ ''</a></li>''\<close>
| \<open>serialize (SidebarItem item) =
     ''<li><a href="#'' @ toc_id item @ ''" class="toc-h'' @ number_to_string (toc_level item)
       @ ''">'' @ escapeHtml (toc_text item) @ ''</a></li>''\<close>

definition markup :: "piece list \<Rightarrow> string" where
  "markup ps = concat (map serialize ps)"

text \<open>
  \<^verbatim>\<open>_buildNestedTOC(items)\<close>: the body of the \<^verbatim>\<open>forEach\<close> as a step on the pair of
  \<^verbatim>\<open>html\<close> and \<^verbatim>\<open>prevLevel\<close>. Both subtractions are guarded by the comparison before
  them, so they are exact on natural numbers.
\<close>

definition nested_step :: "TOCEntry \<Rightarrow> piece list \<times> nat \<Rightarrow> piece list \<times> nat" where
  "nested_step item st =
     (let html = fst st; prevLevel = snd st;
          html1 = (if toc_level item > prevLevel
                   then html @ replicate (toc_level item - prevLevel) OlOpen
                   else if toc_level item < prevLevel
                   then html @ replicate (prevLevel - toc_level item) OlClose
                   else html)
      in (html1 @ [NestedItem item], toc_level item))"

definition buildNestedTOC :: "TOCEntry list \<Rightarrow> piece list" where
  "buildNestedTOC items =
     (let st = fold nested_step items ([OlOpen], 2)
      in fst st @ replicate (max (snd st - 1) 1) OlClose)"

definition tocHTML :: "TOCEntry list \<Rightarrow> piece list" where
  \<open>tocHTML items =
     Lit ''\<newline>      <div class="wiki-toc-title">Contents</div>\<newline>      ''
       # buildNestedTOC items\<close>

definition tocSidebarItems :: "TOCEntry list \<Rightarrow> piece list" where
  "tocSidebarItems items = map SidebarItem items"

definition tocSidebarHTML :: "TOCEntry list \<Rightarrow> piece list" where
  \<open>tocSidebarHTML items =
     Lit (''\<newline>        <div class="toc-sidebar-title">On This Page</div>''
          @ ''\<newline>        <ul class="toc-sidebar-list">'')
       # tocSidebarItems items @ [Lit ''</ul>'']\<close>

subsection \<open>\<^verbatim>\<open>buildTOC\<close>\<close>

text \<open>
  What \<^verbatim>\<open>buildTOC\<close> reads and writes. \<open>content_headings\<close> is \<open>None\<close> when the document
  has no \<^verbatim>\<open>#wiki-content\<close>, else the headings of levels 2 to 4 inside it, in document
  order. \<open>floatingTocEl\<close> and \<open>tocSidebar\<close> are \<open>None\<close> when \<^verbatim>\<open>.wiki-toc.floating\<close>
  (inside the content) and \<^verbatim>\<open>#wiki-toc-sidebar\<close> do not exist, else the markup the
  element holds.
\<close>

record toc_page =
  content_headings :: "heading list option"
  floatingTocEl :: "piece list option"
  tocSidebar :: "piece list option"

definition buildTOC :: "toc_page \<Rightarrow> toc_page" where
  "buildTOC page =
     (case content_headings page of
        None \<Rightarrow> page
      | Some headings \<Rightarrow>
          if length headings < 3 then page
          else
            let hs = map (\<lambda>(i, h). assign_id i h) (enumerate 0 headings);
                items = map toc_entry hs;
                page1 = page\<lparr>content_headings := Some hs\<rparr>;
                page2 = (case floatingTocEl page1 of
                           None \<Rightarrow> page1
                         | Some old \<Rightarrow> page1\<lparr>floatingTocEl := Some (tocHTML items)\<rparr>)
            in (case tocSidebar page2 of
                  None \<Rightarrow> page2
                | Some old \<Rightarrow> page2\<lparr>tocSidebar := Some (tocSidebarHTML items)\<rparr>))"

text \<open>The entries a piece list shows, in the order of the list.\<close>

fun entry_of :: "piece \<Rightarrow> TOCEntry list" where
  "entry_of (NestedItem item) = [item]"
| "entry_of (SidebarItem item) = [item]"
| "entry_of p = []"

definition rendered_entries :: "piece list \<Rightarrow> TOCEntry list" where
  "rendered_entries ps = concat (map entry_of ps)"

text \<open>
  Nesting depth after reading a piece list from depth \<open>d\<close>: an opening tag goes one level
  down, a closing tag one level up, and a closing tag at depth 0 has nothing to close
  (\<open>None\<close>).
\<close>

fun depth_after :: "nat \<Rightarrow> piece list \<Rightarrow> nat option" where
  "depth_after d [] = Some d"
| "depth_after d (OlOpen # ps) = depth_after (Suc d) ps"
| "depth_after d (OlClose # ps) = (case d of 0 \<Rightarrow> None | Suc e \<Rightarrow> depth_after e ps)"
| "depth_after d (p # ps) = depth_after d ps"

text \<open>The headings \<^verbatim>\<open>buildTOC\<close> collects: none when there is no content element.\<close>

definition collected_headings :: "toc_page \<Rightarrow> heading list" where
  "collected_headings page = (case content_headings page of None \<Rightarrow> [] | Some hs \<Rightarrow> hs)"

text \<open>Reading a decimal numeral back, to show that distinct indices are written differently.\<close>

definition string_to_number :: "string \<Rightarrow> nat" where
  "string_to_number s = foldl (\<lambda>a c. 10 * a + ((of_char c :: nat) - 48)) 0 s"

text \<open>A sample article: two headings of the same text without id around one with an id
  and a citation marker, and both outline elements present.\<close>

definition three_headings :: "heading list" where
  "three_headings =
     [\<lparr>tagName = H2, heading_id = [], textContent = ''Notes''\<rparr>,
      \<lparr>tagName = H4, heading_id = ''deep'', textContent = ''Details [1]''\<rparr>,
      \<lparr>tagName = H2, heading_id = [], textContent = ''Notes''\<rparr>]"

definition sample_page :: toc_page where
  "sample_page = \<lparr>content_headings = Some three_headings, floatingTocEl = Some [], tocSidebar = Some []\<rparr>"

text \<open>How often a text occurs in a string: the positions at which a copy of it starts.\<close>

fun occurrences :: "string \<Rightarrow> string \<Rightarrow> nat" where
  "occurrences pat [] = 0"
| "occurrences pat (c # cs) = (if prefix pat (c # cs) then 1 else 0) + occurrences pat cs"

text \<open>The list item of an entry as the two templates write it, character by character.\<close>

definition nested_item_markup :: "TOCEntry \<Rightarrow> string" where
  \<open>nested_item_markup item =
     ''<li class="toc-h'' @ number_to_string (toc_level item) @ ''"><a href="#'' @ toc_id item
       @ ''">'' @ escapeHtml (toc_text item) @ ''</a></li>''\<close>

definition sidebar_item_markup :: "TOCEntry \<Rightarrow> string" where
  \<open>sidebar_item_markup item =
     ''<li><a href="#'' @ toc_id item @ ''" class="toc-h'' @ number_to_string (toc_level item)
       @ ''">'' @ escapeHtml (toc_text item) @ ''</a></li>''\<close>

text \<open>
  The nested list as the specification describes the walk: from the previous level
  \<open>prev\<close>, an entry that lies deeper opens as many lists as it lies deeper, one that lies
  higher closes as many, then comes its item; after the last entry the lists still open
  are closed, which at level \<open>prev\<close> are \<open>prev - 1\<close>.
\<close>

fun nested_walk :: "nat \<Rightarrow> TOCEntry list \<Rightarrow> string" where
  "nested_walk prev [] = concat (replicate (prev - 1) ''</ol>'')"
| "nested_walk prev (item # rest) =
     (if prev < toc_level item then concat (replicate (toc_level item - prev) ''<ol>'')
      else concat (replicate (prev - toc_level item) ''</ol>''))
     @ nested_item_markup item @ nested_walk (toc_level item) rest"

text \<open>The entry of a heading, field by field.\<close>

definition entry_of_heading :: "heading \<Rightarrow> TOCEntry" where
  "entry_of_heading h =
     \<lparr>toc_id = heading_id h,
      toc_text = trim (strip_citations (textContent h)),
      toc_level = (case tagName h of H2 \<Rightarrow> 2 | H3 \<Rightarrow> 3 | H4 \<Rightarrow> 4)\<rparr>"

text \<open>A piece that starts with a tag and, if it is an item, has no \<^verbatim>\<open><\<close> in its id.\<close>

fun clean_piece :: "piece \<Rightarrow> bool" where
  "clean_piece (Lit s) = False"
| "clean_piece OlOpen = True"
| "clean_piece OlClose = True"
| "clean_piece (NestedItem item) = (CHR ''<'' \<notin> set (toc_id item))"
| "clean_piece (SidebarItem item) = (CHR ''<'' \<notin> set (toc_id item))"

section \<open>Page chrome\<close>

text \<open>
  The document \<^verbatim>\<open>buildLayout\<close> works on: the children of \<^verbatim>\<open>body\<close> as a forest of
  elements with tag, id, attributes and children. A \<open>Markup\<close> node stands for the nodes
  the platform parses from a string assigned to \<^verbatim>\<open>innerHTML\<close>; they are not looked into,
  and the templates of the script hold none of the four ids \<^verbatim>\<open>buildLayout\<close> asks for.
\<close>

datatype node =
    Element (tag: string) (ident: string) (attrs: "(string \<times> string) list") (children: "node list")
  | Markup string

text \<open>\<^verbatim>\<open>$('#id')\<close> finds an element or \<^verbatim>\<open>null\<close>; the script only tests the
  answer, except for the content element, which it moves.\<close>

fun has_id :: "string \<Rightarrow> node \<Rightarrow> bool" where
  "has_id i (Element t j as ks) = (j = i \<or> list_ex (has_id i) ks)"
| "has_id i (Markup s) = False"

definition querySelector :: "string \<Rightarrow> node list \<Rightarrow> bool" where
  "querySelector i ns = list_ex (has_id i) ns"

text \<open>How many elements of a forest carry an id.\<close>

fun count_id :: "string \<Rightarrow> node \<Rightarrow> nat" where
  "count_id i (Element t j as ks) = (if j = i then 1 else 0) + sum_list (map (count_id i) ks)"
| "count_id i (Markup s) = 0"

definition count_elements :: "string \<Rightarrow> node list \<Rightarrow> nat" where
  "count_elements i ns = sum_list (map (count_id i) ns)"

text \<open>
  What \<^verbatim>\<open>buildLayout\<close> takes from its surroundings: the strings \<^verbatim>\<open>_headerHTML()\<close>,
  \<^verbatim>\<open>_footerHTML()\<close> and \<^verbatim>\<open>_sidebarHTML()\<close> return, \<^verbatim>\<open>window.WIKI_PAGE.title\<close> (\<open>None\<close>
  when there is no page data or no title) and \<^verbatim>\<open>WIKI_CONFIG.title\<close>.
\<close>

record page_env =
  headerHTML :: string
  footerHTML :: string
  sidebarHTML :: string
  page_title :: "string option"
  site_title :: string

record document =
  doc_title :: string
  body :: "node list"

text \<open>The wrapper with the side bar before the content and the outline panel after it.\<close>

definition layout_around :: "page_env \<Rightarrow> node \<Rightarrow> node" where
  "layout_around env mainContent =
     Element ''div'' ''wiki-layout'' []
       [Element ''nav'' ''wiki-sidebar'' [(''aria-label'', ''Site Navigation'')] [Markup (sidebarHTML env)],
        mainContent,
        Element ''aside'' ''wiki-toc-sidebar'' [(''aria-label'', ''Table of Contents'')] []]"

text \<open>
  \<^verbatim>\<open>mainContent.parentNode.insertBefore(layout, mainContent)\<close> and the three
  \<^verbatim>\<open>appendChild\<close> calls: the first element with the id \<^verbatim>\<open>wiki-content\<close>, in document
  order, is replaced where it stands by the wrapper around it; \<open>None\<close> when there is no
  such element.
\<close>

fun wrap_node :: "page_env \<Rightarrow> node \<Rightarrow> node option"
  and wrap_nodes :: "page_env \<Rightarrow> node list \<Rightarrow> node list option" where
  "wrap_node env (Element t j as ks) =
     (if j = ''wiki-content'' then Some (layout_around env (Element t j as ks))
      else map_option (Element t j as) (wrap_nodes env ks))"
| "wrap_node env (Markup s) = None"
| "wrap_nodes env [] = None"
| "wrap_nodes env (n # ns) =
     (case wrap_node env n of
        Some n' \<Rightarrow> Some (n' # ns)
      | None \<Rightarrow> map_option ((#) n) (wrap_nodes env ns))"

definition em_dash :: string where
  "em_dash = [CHR 0xE2, CHR 0x80, CHR 0x94]"

text \<open>The last block: the document title, when the page names one.\<close>

definition update_title :: "page_env \<Rightarrow> document \<Rightarrow> document" where
  "update_title env d =
     (case page_title env of
        None \<Rightarrow> d
      | Some t \<Rightarrow> if t = [] then d
                  else d\<lparr>doc_title := t @ '' '' @ em_dash @ '' '' @ site_title env\<rparr>)"

text \<open>
  The three guarded blocks of \<^verbatim>\<open>buildLayout\<close>, in the order of the source. In the third,
  a document without content element leaves the function at once (\<^verbatim>\<open>return\<close>), before
  the title is set.
\<close>

definition add_header :: "page_env \<Rightarrow> document \<Rightarrow> document" where
  "add_header env d =
     (if \<not> querySelector ''wiki-header'' (body d)
      then d\<lparr>body := Element ''header'' ''wiki-header'' [] [Markup (headerHTML env)] # body d\<rparr>
      else d)"

definition add_footer :: "page_env \<Rightarrow> document \<Rightarrow> document" where
  "add_footer env d =
     (if \<not> querySelector ''wiki-footer'' (body d)
      then d\<lparr>body := body d @ [Element ''footer'' ''wiki-footer'' [] [Markup (footerHTML env)]]\<rparr>
      else d)"

definition wrap_content :: "page_env \<Rightarrow> document \<Rightarrow> document" where
  "wrap_content env d =
     (if \<not> querySelector ''wiki-layout'' (body d)
      then (case wrap_nodes env (body d) of
              None \<Rightarrow> d
            | Some wrapped \<Rightarrow> update_title env (d\<lparr>body := wrapped\<rparr>))
      else update_title env d)"

definition buildLayout :: "page_env \<Rightarrow> document \<Rightarrow> document" where
  "buildLayout env d = wrap_content env (add_footer env (add_header env d))"

text \<open>The ids of the wrapper and its two panels, counted for an id.\<close>

definition shell_count :: "string \<Rightarrow> nat" where
  "shell_count i =
     (if i = ''wiki-layout'' then 1 else 0) + (if i = ''wiki-sidebar'' then 1 else 0)
       + (if i = ''wiki-toc-sidebar'' then 1 else 0)"

definition sample_env :: page_env where
  "sample_env = \<lparr>headerHTML = ''<div class=header-inner></div>'', footerHTML = ''<p>MyWiki</p>'',
     sidebarHTML = ''<p>No sidebar defined.</p>'', page_title = Some ''Article'', site_title = ''MyWiki''\<rparr>"


section \<open>Graph embeds\<close>

text \<open>
  Values \<^verbatim>\<open>JSON.parse\<close> returns. Two errors occur in this part of the script:
  \<^verbatim>\<open>SyntaxError\<close> from \<^verbatim>\<open>JSON.parse\<close> on a text that is not JSON, \<^verbatim>\<open>TypeError\<close> from
  \<^verbatim>\<open>forEach\<close> on a value that is no array and from reading a property of \<^verbatim>\<open>null\<close>.
  \<^verbatim>\<open>JSON.parse\<close> itself is the platform's and is a parameter \<open>parse\<close> of the model
  (\<open>None\<close> when it throws); the calls into the graphing library are taken not to throw.
  Numbers are kept as integers: nothing here depends on a number beyond its being zero
  or not.
\<close>

datatype json =
    JNull
  | JBool bool
  | JNum int
  | JStr string
  | JArr "json list"
  | JObj "(string \<times> json) list"

fun truthy :: "json \<Rightarrow> bool" where
  "truthy JNull = False"
| "truthy (JBool b) = b"
| "truthy (JNum n) = (n \<noteq> 0)"
| "truthy (JStr s) = (s \<noteq> [])"
| "truthy (JArr xs) = True"
| "truthy (JObj kvs) = True"

text \<open>\<^verbatim>\<open>expr.key\<close>: a \<^verbatim>\<open>TypeError\<close> on \<^verbatim>\<open>null\<close>, \<^verbatim>\<open>undefined\<close> (\<open>None\<close>) where
  the value has no such property; of a repeated key of an object the last one counts.\<close>

fun get_property :: "string \<Rightarrow> json \<Rightarrow> js_error + json option" where
  "get_property k JNull = Inl TypeError"
| "get_property k (JObj kvs) = Inr (map_of (rev kvs) k)"
| "get_property k v = Inr None"

record expression =
  expr_id :: string
  latex :: json
  color :: "json option"

record calculator =
  base_options :: "(string \<times> json) list"
  spread_options :: json
  expressions :: "expression list"

text \<open>The argument of \<^verbatim>\<open>calc.setExpression\<close>:
  \<^verbatim>\<open>{ id: 'e' + i, latex: expr.latex || expr, color: expr.color }\<close>.\<close>

definition make_expression :: "string \<Rightarrow> nat \<Rightarrow> json \<Rightarrow> js_error + expression" where
  "make_expression id_prefix i expr =
     (case get_property ''latex'' expr of
        Inl err \<Rightarrow> Inl err
      | Inr l \<Rightarrow>
          (case get_property ''color'' expr of
             Inl err \<Rightarrow> Inl err
           | Inr c \<Rightarrow>
               Inr \<lparr>expr_id = id_prefix @ number_to_string i,
                    latex = (case l of Some v \<Rightarrow> if truthy v then v else expr | None \<Rightarrow> expr),
                    color = c\<rparr>))"

fun set_expressions :: "string \<Rightarrow> nat \<Rightarrow> json list \<Rightarrow> calculator \<Rightarrow> js_error option \<times> calculator" where
  "set_expressions id_prefix i [] calc = (None, calc)"
| "set_expressions id_prefix i (expr # rest) calc =
     (case make_expression id_prefix i expr of
        Inl err \<Rightarrow> (Some err, calc)
      | Inr e \<Rightarrow> set_expressions id_prefix (Suc i) rest (calc\<lparr>expressions := expressions calc @ [e]\<rparr>))"

definition for_each_expression :: "string \<Rightarrow> json \<Rightarrow> calculator \<Rightarrow> js_error option \<times> calculator" where
  "for_each_expression id_prefix exprs calc =
     (case exprs of
        JArr es \<Rightarrow> set_expressions id_prefix 0 es calc
      | _ \<Rightarrow> (Some TypeError, calc))"

text \<open>
  A container \<^verbatim>\<open>.wiki-desmos[data-exprs]\<close>: its three data attributes, whether it holds
  an \<^verbatim>\<open>iframe\<close>, and what the two initialisers leave on it.
\<close>

record embed =
  data_exprs :: string
  data_opts :: "string option"
  data_height :: "string option"
  has_iframe :: bool
  iframe_calc :: "calculator option"
  iframe_border_none :: bool
  style_height :: "string option"
  container_calc :: "calculator option"

definition exprs_text :: "embed \<Rightarrow> string" where
  "exprs_text el = (if data_exprs el = [] then ''[]'' else data_exprs el)"

definition opts_text :: "embed \<Rightarrow> string" where
  "opts_text el = (case data_opts el of None \<Rightarrow> ''{}'' | Some s \<Rightarrow> if s = [] then ''{}'' else s)"

definition height_text :: "embed \<Rightarrow> string" where
  "height_text el = (case data_height el of None \<Rightarrow> ''400'' | Some s \<Rightarrow> if s = [] then ''400'' else s)"

text \<open>The body of \<^verbatim>\<open>try\<close> in \<^verbatim>\<open>initDesmosEmbeds\<close>: the error, if one is thrown, and
  the container as the statements before the throw left it.\<close>

definition embed_try :: "(string \<Rightarrow> json option) \<Rightarrow> embed \<Rightarrow> js_error option \<times> embed" where
  "embed_try parse container =
     (case parse (exprs_text container) of
        None \<Rightarrow> (Some SyntaxError, container)
      | Some exprs \<Rightarrow>
          (case parse (opts_text container) of
             None \<Rightarrow> (Some SyntaxError, container)
           | Some opts \<Rightarrow>
               let calc = \<lparr>base_options = [(''lockViewport'', JBool False), (''expressions'', JBool True),
                                           (''keypad'', JBool True)],
                           spread_options = opts, expressions = []\<rparr>
               in (case for_each_expression ''e'' exprs calc of
                     (Some err, calc1) \<Rightarrow> (Some err, container\<lparr>iframe_calc := Some calc1\<rparr>)
                   | (None, calc1) \<Rightarrow>
                       (None, container\<lparr>iframe_calc := Some calc1, iframe_border_none := True\<rparr>))))"

text \<open>\<^verbatim>\<open>initDesmosEmbeds\<close>: every container in turn; \<^verbatim>\<open>catch\<close> logs the error with
  \<^verbatim>\<open>console.warn\<close> and the loop goes on. The result is the log and the containers.\<close>

fun init_each :: "(string \<Rightarrow> json option) \<Rightarrow> embed list \<Rightarrow> js_error list \<times> embed list" where
  "init_each parse [] = ([], [])"
| "init_each parse (container # rest) =
     (let (caught, container1) =
            (if \<not> has_iframe container then (None, container) else embed_try parse container);
          (warnings, rest1) = init_each parse rest
      in ((case caught of None \<Rightarrow> [] | Some e \<Rightarrow> [e]) @ warnings, container1 # rest1))"

definition initDesmosEmbeds :: "(string \<Rightarrow> json option) \<Rightarrow> bool \<Rightarrow> embed list \<Rightarrow> js_error list \<times> embed list" where
  "initDesmosEmbeds parse desmos_loaded containers =
     (if \<not> desmos_loaded then ([], containers) else init_each parse containers)"

text \<open>
  \<^verbatim>\<open>wikiInitAllDesmos\<close>: the callback of its \<^verbatim>\<open>forEach\<close> has no \<^verbatim>\<open>try\<close>, so an error
  leaves the loop and the function; the result is the error, if any, and the containers
  as they are then.
\<close>

definition wiki_init_one :: "(string \<Rightarrow> json option) \<Rightarrow> bool \<Rightarrow> embed \<Rightarrow> js_error option \<times> embed" where
  "wiki_init_one parse desmos_loaded el =
     (case parse (exprs_text el) of
        None \<Rightarrow> (Some SyntaxError, el)
      | Some exprs \<Rightarrow>
          (case parse (opts_text el) of
             None \<Rightarrow> (Some SyntaxError, el)
           | Some opts \<Rightarrow>
               let el1 = el\<lparr>style_height := Some (height_text el @ ''px'')\<rparr>
               in if desmos_loaded
                  then
                    let el2 = el1\<lparr>has_iframe := False, iframe_calc := None, iframe_border_none := False\<rparr>;
                        calc = \<lparr>base_options = [], spread_options = opts, expressions = []\<rparr>
                    in (case for_each_expression ''e'' exprs calc of
                          (err, calc1) \<Rightarrow> (err, el2\<lparr>container_calc := Some calc1\<rparr>))
                  else (None, el1)))"

fun wiki_init_each :: "(string \<Rightarrow> json option) \<Rightarrow> bool \<Rightarrow> embed list \<Rightarrow> js_error option \<times> embed list" where
  "wiki_init_each parse desmos_loaded [] = (None, [])"
| "wiki_init_each parse desmos_loaded (el # rest) =
     (case wiki_init_one parse desmos_loaded el of
        (Some err, el1) \<Rightarrow> (Some err, el1 # rest)
      | (None, el1) \<Rightarrow>
          (case wiki_init_each parse desmos_loaded rest of
             (thrown, rest1) \<Rightarrow> (thrown, el1 # rest1)))"

definition wikiInitAllDesmos :: "(string \<Rightarrow> json option) \<Rightarrow> bool \<Rightarrow> embed list \<Rightarrow> js_error option \<times> embed list" where
  "wikiInitAllDesmos parse desmos_loaded els = wiki_init_each parse desmos_loaded els"

text \<open>
  For the examples: \<^verbatim>\<open>JSON.parse\<close> on the texts that occur in them, three JSON texts and
  the malformed \<^verbatim>\<open>[{"latex":\<close>.
\<close>

definition sample_parse :: "string \<Rightarrow> json option" where
  \<open>sample_parse s =
     (if s = ''[]'' then Some (JArr [])
      else if s = ''{}'' then Some (JObj [])
      else if s = ''["y=x^2"]'' then Some (JArr [JStr ''y=x^2''])
      else None)\<close>

definition fresh_embed :: "string \<Rightarrow> embed" where
  "fresh_embed exprs =
     \<lparr>data_exprs = exprs, data_opts = None, data_height = None, has_iframe = True,
      iframe_calc = None, iframe_border_none = False, style_height = None, container_calc = None\<rparr>"


section \<open>Facts about the string functions\<close>

lemma includes_iff_sublist: "str_includes hay q \<longleftrightarrow> sublist q hay"
proof (induction hay)
  case Nil
  show ?case by simp
next
  case (Cons c cs)
  show ?case
  proof (cases q)
    case Nil
    then show ?thesis by simp
  next
    case (Cons d ds)
    with Cons.IH show ?thesis by (simp add: sublist_Cons_right)
  qed
qed

lemma dropWhile_all_iff: "(\<forall>x \<in> set (dropWhile P s). P x) \<longleftrightarrow> (\<forall>x \<in> set s. P x)"
  by (induction s) auto

lemma trim_empty_iff: "trim s = [] \<longleftrightarrow> (\<forall>c \<in> set s. isWhiteSpace c)"
  by (simp add: trim_def dropWhile_eq_Nil_conv dropWhile_all_iff)

lemma results_nonblank:
  "trim query \<noteq> [] \<Longrightarrow>
     results (runSearch query si) =
       take 10 (filter (page_matches (toLowerCase query)) (index_or_empty si))"
  by (simp add: runSearch_def Let_def)

lemma toLowerCase_append: "toLowerCase (a @ b) = toLowerCase a @ toLowerCase b"
  by (simp add: toLowerCase_def)

lemma page_matches_iff:
  "page_matches q p \<longleftrightarrow>
     sublist q (toLowerCase (title p @ '' '' @ desc_or_empty p @ '' '' @ join '' '' (tags_or_empty p)))"
  by (simp add: page_matches_def searchable_text_def includes_iff_sublist)

lemma take_filter_mem:
  assumes "i < length xs" and "P (xs ! i)" and "length (filter P (take i xs)) < n"
  shows "xs ! i \<in> set (take n (filter P xs))"
proof -
  from id_take_nth_drop [OF assms(1)]
  have "filter P xs = filter P (take i xs @ xs ! i # drop (Suc i) xs)"
    by (rule arg_cong)
  also have "\<dots> = filter P (take i xs) @ xs ! i # filter P (drop (Suc i) xs)"
    using assms(2) by simp
  finally have split: "filter P xs = filter P (take i xs) @ xs ! i # filter P (drop (Suc i) xs)" .
  obtain k where k: "n - length (filter P (take i xs)) = Suc k"
    using assms(3) by (cases "n - length (filter P (take i xs))") auto
  show ?thesis
    unfolding split by (simp add: k)
qed


lemma escape_char_no_angle: "CHR ''<'' \<notin> set (escape_char c) \<and> CHR ''>'' \<notin> set (escape_char c)"
  by (simp add: escape_char_def)

lemma escapeHtml_no_angle: "CHR ''<'' \<notin> set (escapeHtml s) \<and> CHR ''>'' \<notin> set (escapeHtml s)"
  by (induction s) (simp_all add: escapeHtml_def escape_char_no_angle)

lemma escapeHtml_keeps_quote: "CHR 0x22 \<in> set s \<Longrightarrow> CHR 0x22 \<in> set (escapeHtml s)"
  by (induction s) (auto simp: escapeHtml_def escape_char_def)

section \<open>Search: what is returned\<close>

text \<open>
  C1, as the specification words it: a descriptor is returned exactly when the lower-cased
  query is a substring of the lower-cased concatenation of title, desc and the tags joined
  by spaces. The script puts one space between the three parts, also when desc or the tags
  are missing, so the query \<^verbatim>\<open>"b  "\<close> finds a page whose only field is the title
  \<^verbatim>\<open>"ab"\<close>, although \<^verbatim>\<open>"b  "\<close> is no substring of \<^verbatim>\<open>"ab"\<close>.
\<close>

theorem search_spec_test_counterexample:
  "\<lparr>title = ''ab'', url = ''a.html'', desc = None, tags = None\<rparr>
     \<in> set (results (runSearch ''b  ''
           (Some [\<lparr>title = ''ab'', url = ''a.html'', desc = None, tags = None\<rparr>])))
   \<and> \<not> spec_matches ''b  '' \<lparr>title = ''ab'', url = ''a.html'', desc = None, tags = None\<rparr>"
  by code_simp

text \<open>
  C1, amended: for a query that is not blank, the matches are the descriptors of the
  catalog for which the lower-cased query is a substring of the lower-cased text
  \<open>title @ '' '' @ desc @ '' '' @ tags joined by spaces\<close> (desc and tags empty when
  missing); the returned list is the first ten of them, so nothing that fails the test is
  returned and every descriptor that passes it is a match before the cap.
\<close>

theorem search_match_test:
  assumes "trim query \<noteq> []"
  shows "results (runSearch query si) =
           take 10 (filter (\<lambda>p. sublist (toLowerCase query)
             (toLowerCase (title p @ '' '' @ desc_or_empty p @ '' '' @ join '' '' (tags_or_empty p))))
             (index_or_empty si))
         \<and> (\<forall>p \<in> set (results (runSearch query si)).
              p \<in> set (index_or_empty si) \<and>
              sublist (toLowerCase query)
                (toLowerCase (title p @ '' '' @ desc_or_empty p @ '' '' @ join '' '' (tags_or_empty p))))"
proof (intro conjI ballI)
  let ?test = "\<lambda>p. sublist (toLowerCase query)
     (toLowerCase (title p @ '' '' @ desc_or_empty p @ '' '' @ join '' '' (tags_or_empty p)))"
  have f: "filter (page_matches (toLowerCase query)) (index_or_empty si)
             = filter ?test (index_or_empty si)"
    by (rule filter_cong) (simp_all only: page_matches_iff)
  have r: "results (runSearch query si) =
       take 10 (filter (page_matches (toLowerCase query)) (index_or_empty si))"
    using assms by (rule results_nonblank)
  show r': "results (runSearch query si) = take 10 (filter ?test (index_or_empty si))"
    using r f by (rule trans [OF _ arg_cong])
  fix p
  assume "p \<in> set (results (runSearch query si))"
  then have "p \<in> set (take 10 (filter ?test (index_or_empty si)))"
    by (simp only: r')
  then have "p \<in> set (filter ?test (index_or_empty si))"
    by (rule in_set_takeD)
  then show "p \<in> set (index_or_empty si)" and "?test p"
    by simp_all
qed


theorem search_match_test_witness:
  "trim ''hist'' \<noteq> []
   \<and> roman_history \<in> set (results (runSearch ''hist'' (Some [algebra_basics, roman_history])))
   \<and> roman_history \<in> set (index_or_empty (Some [algebra_basics, roman_history]))
   \<and> sublist (toLowerCase ''hist'')
        (toLowerCase (title roman_history @ '' '' @ desc_or_empty roman_history @ '' ''
           @ join '' '' (tags_or_empty roman_history)))"
proof -
  have h: "trim ''hist'' \<noteq> []" by code_simp
  have m: "roman_history \<in> set (results (runSearch ''hist'' (Some [algebra_basics, roman_history])))"
    by code_simp
  from search_match_test [OF h, of "Some [algebra_basics, roman_history]"] m h
  show ?thesis by blast
qed

text \<open>
  C2: for a query that is not blank, the number of results is the smaller of 10 and the
  number of matching descriptors, and the results are the leading matches in catalog
  order: a prefix of the matches, hence a subsequence of the catalog.
\<close>

theorem search_count_order:
  assumes "trim query \<noteq> []"
  shows "length (results (runSearch query si)) =
           min 10 (length (filter (page_matches (toLowerCase query)) (index_or_empty si)))
         \<and> subseq (results (runSearch query si)) (index_or_empty si)
         \<and> prefix (results (runSearch query si))
             (filter (page_matches (toLowerCase query)) (index_or_empty si))"
proof -
  let ?ms = "filter (page_matches (toLowerCase query)) (index_or_empty si)"
  have r: "results (runSearch query si) = take 10 ?ms"
    using assms by (rule results_nonblank)
  have "subseq (take 10 ?ms) ?ms" by (rule prefix_imp_subseq [OF take_is_prefix])
  moreover have "subseq ?ms (index_or_empty si)" by (rule subseq_filter_left)
  ultimately have "subseq (take 10 ?ms) (index_or_empty si)" by (rule subseq_order.trans)
  moreover have "prefix (take 10 ?ms) ?ms" by (rule take_is_prefix)
  ultimately show ?thesis using r by (simp add: min.commute)
qed


theorem search_count_order_witness:
  "trim ''MATH'' \<noteq> []
   \<and> length (results (runSearch ''MATH'' (Some [algebra_basics, roman_history]))) = 1
   \<and> subseq (results (runSearch ''MATH'' (Some [algebra_basics, roman_history])))
        [algebra_basics, roman_history]"
proof -
  have h: "trim ''MATH'' \<noteq> []" by code_simp
  have n: "min 10 (length (filter (page_matches (toLowerCase ''MATH''))
             [algebra_basics, roman_history])) = 1"
    by code_simp
  have i: "index_or_empty (Some [algebra_basics, roman_history]) = [algebra_basics, roman_history]"
    by (simp add: index_or_empty_def)
  from search_count_order [OF h, of "Some [algebra_basics, roman_history]"] h
  show ?thesis unfolding i n by blast
qed

text \<open>
  C3, as stated: a case variation of a descriptor's title as the query always returns
  that descriptor. The cap of ten stands against it: with ten pages titled \<^verbatim>\<open>"ab"\<close>
  before a page titled \<^verbatim>\<open>"a"\<close>, the query \<^verbatim>\<open>"A"\<close> returns the ten and not the
  eleventh.
\<close>

theorem title_query_counterexample:
  "case_variation ''A'' (title \<lparr>title = ''a'', url = ''a.html'', desc = None, tags = None\<rparr>)
   \<and> \<lparr>title = ''a'', url = ''a.html'', desc = None, tags = None\<rparr>
       \<in> set (replicate 10 \<lparr>title = ''ab'', url = ''b.html'', desc = None, tags = None\<rparr>
                @ [\<lparr>title = ''a'', url = ''a.html'', desc = None, tags = None\<rparr>])
   \<and> \<lparr>title = ''a'', url = ''a.html'', desc = None, tags = None\<rparr>
       \<notin> set (results (runSearch ''A''
           (Some (replicate 10 \<lparr>title = ''ab'', url = ''b.html'', desc = None, tags = None\<rparr>
                  @ [\<lparr>title = ''a'', url = ''a.html'', desc = None, tags = None\<rparr>]))))"
  by code_simp

text \<open>
  C3, amended: for a descriptor of the catalog and a query that is a case variation of
  its title, the descriptor is a match: it passes the test of the search and stands in
  the list of matches, whatever the number of matches. If the query is not blank and
  fewer than ten matching descriptors stand before it in the catalog, it is returned.
\<close>

theorem title_query_found:
  assumes "i < length cat" and "case_variation query (title (cat ! i))"
  shows "page_matches (toLowerCase query) (cat ! i)
         \<and> cat ! i \<in> set (filter (page_matches (toLowerCase query)) cat)
         \<and> sublist (toLowerCase query)
              (toLowerCase (title (cat ! i) @ '' '' @ desc_or_empty (cat ! i) @ '' ''
                 @ join '' '' (tags_or_empty (cat ! i))))
         \<and> (trim query \<noteq> []
              \<and> length (filter (page_matches (toLowerCase query)) (take i cat)) < 10
              \<longrightarrow> cat ! i \<in> set (results (runSearch query (Some cat))))"
proof -
  have "prefix (toLowerCase query) (toLowerCase (searchable_text (cat ! i)))"
    using assms(2) by (simp add: case_variation_def searchable_text_def toLowerCase_append)
  then have m: "page_matches (toLowerCase query) (cat ! i)"
    by (simp add: page_matches_def includes_iff_sublist prefix_imp_sublist)
  have f: "cat ! i \<in> set (filter (page_matches (toLowerCase query)) cat)"
    using assms(1) m by simp
  have s: "sublist (toLowerCase query)
              (toLowerCase (title (cat ! i) @ '' '' @ desc_or_empty (cat ! i) @ '' ''
                 @ join '' '' (tags_or_empty (cat ! i))))"
    using m by (simp only: page_matches_iff)
  have r: "cat ! i \<in> set (results (runSearch query (Some cat)))"
    if "trim query \<noteq> []" and c: "length (filter (page_matches (toLowerCase query)) (take i cat)) < 10"
  proof -
    have "results (runSearch query (Some cat)) = take 10 (filter (page_matches (toLowerCase query)) cat)"
      using that(1) by (simp add: results_nonblank index_or_empty_def)
    then show ?thesis
      using take_filter_mem [OF assms(1) m c] by simp
  qed
  from m f s r show ?thesis by blast
qed

theorem title_query_found_witness:
  "1 < length [algebra_basics, roman_history]
   \<and> case_variation ''ROMAN history'' (title ([algebra_basics, roman_history] ! 1))
   \<and> trim ''ROMAN history'' \<noteq> []
   \<and> length (filter (page_matches (toLowerCase ''ROMAN history'')) (take 1 [algebra_basics, roman_history])) < 10
   \<and> [algebra_basics, roman_history] ! 1
       \<in> set (results (runSearch ''ROMAN history'' (Some [algebra_basics, roman_history])))
   \<and> results (runSearch ''ROMAN history'' (Some [algebra_basics, roman_history]))
       = [\<lparr>title = ''Roman History'', url = ''b.html'', desc = None, tags = Some [''history'']\<rparr>]
   \<and> page_matches (toLowerCase ''A'')
        ((replicate 10 \<lparr>title = ''ab'', url = ''b.html'', desc = None, tags = None\<rparr>
           @ [\<lparr>title = ''a'', url = ''a.html'', desc = None, tags = None\<rparr>]) ! 10)"
proof -
  have a: "1 < length [algebra_basics, roman_history]" by simp
  have b: "case_variation ''ROMAN history'' (title ([algebra_basics, roman_history] ! 1))"
    by code_simp
  have c: "trim ''ROMAN history'' \<noteq> []" by code_simp
  have d: "length (filter (page_matches (toLowerCase ''ROMAN history''))
             (take 1 [algebra_basics, roman_history])) < 10"
    by code_simp
  have e: "results (runSearch ''ROMAN history'' (Some [algebra_basics, roman_history]))
       = [\<lparr>title = ''Roman History'', url = ''b.html'', desc = None, tags = Some [''history'']\<rparr>]"
    by code_simp
  let ?cat = "replicate 10 \<lparr>title = ''ab'', url = ''b.html'', desc = None, tags = None\<rparr>
           @ [\<lparr>title = ''a'', url = ''a.html'', desc = None, tags = None\<rparr>]"
  have g: "10 < length ?cat" by simp
  have h: "case_variation ''A'' (title (?cat ! 10))" by code_simp
  from title_query_found [OF a b] c d
  have "[algebra_basics, roman_history] ! 1
       \<in> set (results (runSearch ''ROMAN history'' (Some [algebra_basics, roman_history])))"
    by blast
  moreover from title_query_found [OF g h]
  have "page_matches (toLowerCase ''A'') (?cat ! 10)" by blast
  ultimately show ?thesis using a b c d e by blast
qed

text \<open>
  C4: for a query that is empty or holds white space only, whatever the catalog, the
  search returns no result and writes the start-typing placeholder, the markup
  \<^verbatim>\<open><div class="search-empty">Start typing to search...</div>\<close> with the ellipsis
  character, and not the catalog; called with the results element, it ends without an
  error.
\<close>

theorem blank_query:
  assumes "\<forall>c \<in> set query. isWhiteSpace c"
  shows \<open>runSearch query si
           = \<lparr>results = [],
              innerHTML = ''<div class="search-empty">Start typing to search''
                            @ [CHR 0xE2, CHR 0x80, CHR 0xA6] @ ''</div>''\<rparr>
         \<and> runSearch_call query si (Some old)
           = Inr \<lparr>results = [],
                  innerHTML = ''<div class="search-empty">Start typing to search''
                                @ [CHR 0xE2, CHR 0x80, CHR 0xA6] @ ''</div>''\<rparr>\<close>
  using assms
  by (simp add: runSearch_call_def runSearch_def trim_empty_iff start_typing_html_def ellipsis_def)

theorem blank_query_witness:
  \<open>list_all isWhiteSpace ''   ''
   \<and> index_or_empty (Some [algebra_basics, roman_history]) \<noteq> []
   \<and> runSearch ''   '' (Some [algebra_basics, roman_history])
       = \<lparr>results = [],
          innerHTML = ''<div class="search-empty">Start typing to search''
                        @ [CHR 0xE2, CHR 0x80, CHR 0xA6] @ ''</div>''\<rparr>
   \<and> runSearch_call ''   '' (Some [algebra_basics, roman_history]) (Some [])
       = Inr \<lparr>results = [],
              innerHTML = ''<div class="search-empty">Start typing to search''
                            @ [CHR 0xE2, CHR 0x80, CHR 0xA6] @ ''</div>''\<rparr>\<close>
proof -
  have h: "\<forall>c \<in> set ''   ''. isWhiteSpace c" by (simp add: isWhiteSpace_def)
  have l: "list_all isWhiteSpace ''   ''" using h by (simp add: list_all_iff)
  have n: "index_or_empty (Some [algebra_basics, roman_history]) \<noteq> []"
    by (simp add: index_or_empty_def)
  from blank_query [OF h, of "Some [algebra_basics, roman_history]" "[]"] l n
  show ?thesis by blast
qed


section \<open>Table of contents: nesting\<close>

lemma depth_after_append:
  "depth_after d (xs @ ys) = (case depth_after d xs of None \<Rightarrow> None | Some e \<Rightarrow> depth_after e ys)"
  by (induction d xs rule: depth_after.induct) (simp_all split: nat.splits)

lemma depth_after_opens: "depth_after d (replicate n OlOpen) = Some (d + n)"
  by (induction n arbitrary: d) simp_all

lemma depth_after_closes: "n \<le> d \<Longrightarrow> depth_after d (replicate n OlClose) = Some (d - n)"
proof (induction n arbitrary: d)
  case 0
  show ?case by simp
next
  case (Suc n)
  then obtain e where "d = Suc e" by (cases d) auto
  with Suc show ?case by simp
qed

lemma depth_after_counts:
  "depth_after d ps = Some e \<Longrightarrow> d + count_list ps OlOpen = e + count_list ps OlClose"
  by (induction d ps arbitrary: e rule: depth_after.induct) (auto split: nat.splits)

lemma nested_step_depth:
  assumes "depth_after 0 (fst st) = Some (snd st - 1)" and "2 \<le> snd st" and "2 \<le> toc_level item"
  shows "depth_after 0 (fst (nested_step item st)) = Some (snd (nested_step item st) - 1)
         \<and> 2 \<le> snd (nested_step item st)"
  using assms
  by (auto simp: nested_step_def Let_def depth_after_append depth_after_opens depth_after_closes)

lemma fold_nested_step_depth:
  assumes "\<forall>item \<in> set items. 2 \<le> toc_level item"
    and "depth_after 0 (fst st) = Some (snd st - 1)" and "2 \<le> snd st"
  shows "depth_after 0 (fst (fold nested_step items st)) = Some (snd (fold nested_step items st) - 1)
         \<and> 2 \<le> snd (fold nested_step items st)"
  using assms
proof (induction items arbitrary: st)
  case Nil
  then show ?case by simp
next
  case (Cons item items)
  have "depth_after 0 (fst (nested_step item st)) = Some (snd (nested_step item st) - 1)
         \<and> 2 \<le> snd (nested_step item st)"
    using Cons.prems by (intro nested_step_depth) simp_all
  with Cons.IH [of "nested_step item st"] Cons.prems(1) show ?case by simp
qed

lemma buildNestedTOC_depth:
  assumes "\<forall>item \<in> set items. 2 \<le> toc_level item"
  shows "depth_after 0 (buildNestedTOC items) = Some 0"
proof -
  let ?st = "fold nested_step items ([OlOpen], 2)"
  have inv: "depth_after 0 (fst ?st) = Some (snd ?st - 1) \<and> 2 \<le> snd ?st"
    using assms by (intro fold_nested_step_depth) simp_all
  then have "2 \<le> snd ?st" by (rule conjunct2)
  then have m: "max (snd ?st - 1) 1 = snd ?st - 1" by arith
  from inv have "depth_after 0 (fst ?st @ replicate (snd ?st - 1) OlClose) = Some 0"
    by (simp add: depth_after_append depth_after_closes)
  then show ?thesis
    unfolding buildNestedTOC_def Let_def m .
qed

text \<open>
  The pieces of the nested list balance: for entries with levels among 2, 3 and 4 as many
  lists are opened as are closed, and read from the start no piece closes a list that is
  not open.
\<close>

lemma nested_pieces_balanced:
  assumes "\<forall>item \<in> set items. toc_level item \<in> {2, 3, 4}"
  shows "count_list (buildNestedTOC items) OlOpen = count_list (buildNestedTOC items) OlClose
         \<and> depth_after 0 (buildNestedTOC items) = Some 0"
proof -
  have "\<forall>item \<in> set items. 2 \<le> toc_level item" using assms by auto
  then have d: "depth_after 0 (buildNestedTOC items) = Some 0" by (rule buildNestedTOC_depth)
  from depth_after_counts [OF d] d show ?thesis by simp
qed

lemma nested_pieces_balanced_example:
  "(list_all (\<lambda>item. toc_level item \<in> {2, 3, 4}) (map toc_entry three_headings))
   \<and> count_list (buildNestedTOC (map toc_entry three_headings)) OlOpen = 3
   \<and> count_list (buildNestedTOC (map toc_entry three_headings)) OlClose = 3"
proof -
  have h: "\<forall>item \<in> set (map toc_entry three_headings). toc_level item \<in> {2, 3, 4}"
    by (simp add: three_headings_def toc_entry_def)
  have c: "count_list (buildNestedTOC (map toc_entry three_headings)) OlOpen = 3" by code_simp
  from nested_pieces_balanced [OF h] c h show ?thesis by (simp add: list_all_iff)
qed


section \<open>Table of contents: entries and ids\<close>

lemma rendered_entries_append: "rendered_entries (xs @ ys) = rendered_entries xs @ rendered_entries ys"
  by (simp add: rendered_entries_def)

lemma rendered_entries_replicate:
  "rendered_entries (replicate n OlOpen) = []" "rendered_entries (replicate n OlClose) = []"
  by (induction n) (simp_all add: rendered_entries_def)

lemma rendered_entries_step:
  "rendered_entries (fst (nested_step item st)) = rendered_entries (fst st) @ [item]"
  by (simp add: nested_step_def Let_def rendered_entries_append rendered_entries_replicate)
     (simp add: rendered_entries_def)

lemma rendered_entries_fold:
  "rendered_entries (fst (fold nested_step items st)) = rendered_entries (fst st) @ items"
  by (induction items arbitrary: st) (simp_all add: rendered_entries_step)

lemma rendered_entries_nested: "rendered_entries (buildNestedTOC items) = items"
  by (simp add: buildNestedTOC_def Let_def rendered_entries_append rendered_entries_replicate
        rendered_entries_fold)
     (simp add: rendered_entries_def)

lemma rendered_entries_tocHTML: "rendered_entries (tocHTML items) = items"
  using rendered_entries_nested [of items] by (simp add: tocHTML_def rendered_entries_def)

lemma rendered_entries_sidebar_items: "rendered_entries (map SidebarItem items) = items"
  by (induction items) (simp_all add: rendered_entries_def)

lemma rendered_entries_tocSidebarHTML: "rendered_entries (tocSidebarHTML items) = items"
  using rendered_entries_sidebar_items [of items]
  by (simp add: tocSidebarHTML_def tocSidebarItems_def rendered_entries_def)


lemma of_char_digit: "k < 10 \<Longrightarrow> (of_char (digit_char k) :: nat) = 48 + k"
  by (simp add: digit_char_def)

lemma digit_char_not_hyphen: "k < 10 \<Longrightarrow> digit_char k \<noteq> CHR ''-''"
proof
  assume "k < 10" and "digit_char k = CHR ''-''"
  then have "(of_char (CHR ''-'') :: nat) = 48 + k" by (simp add: of_char_digit [symmetric])
  then show False by simp
qed

lemma number_to_string_no_hyphen: "CHR ''-'' \<notin> set (number_to_string n)"
proof (induction n rule: number_to_string.induct)
  case (1 n)
  show ?case
  proof (cases "n < 10")
    case True
    then show ?thesis
      using digit_char_not_hyphen [of n] by (subst number_to_string.simps) auto
  next
    case False
    have "n mod 10 < 10" by simp
    then have "digit_char (n mod 10) \<noteq> CHR ''-''" by (rule digit_char_not_hyphen)
    with False "1.IH" show ?thesis by (subst number_to_string.simps) auto
  qed
qed

lemma string_to_number_inverse: "string_to_number (number_to_string n) = n"
proof (induction n rule: number_to_string.induct)
  case (1 n)
  show ?case
  proof (cases "n < 10")
    case True
    then show ?thesis
      by (subst number_to_string.simps) (simp add: string_to_number_def of_char_digit)
  next
    case False
    with "1.IH" have ih: "string_to_number (number_to_string (n div 10)) = n div 10" by simp
    have "string_to_number (number_to_string n)
            = 10 * string_to_number (number_to_string (n div 10)) + n mod 10"
      using False
      by (subst number_to_string.simps) (simp add: string_to_number_def of_char_digit)
    then show ?thesis by (simp add: ih)
  qed
qed

lemma number_to_string_inj: "number_to_string i = number_to_string j \<Longrightarrow> i = j"
  by (metis string_to_number_inverse)

lemma tail_after_last_separator:
  assumes "a @ sep # x = b @ sep # y" and "sep \<notin> set x" and "sep \<notin> set y"
  shows "x = y"
proof -
  have tw: "takeWhile (\<lambda>c. c \<noteq> sep) (rev z @ sep # w) = rev z" if "sep \<notin> set z" for z w
  proof -
    have "takeWhile (\<lambda>c. c \<noteq> sep) (rev z @ sep # w)
            = rev z @ takeWhile (\<lambda>c. c \<noteq> sep) (sep # w)"
      using that by (intro takeWhile_append2) auto
    then show ?thesis by simp
  qed
  from assms(1) have "rev (a @ sep # x) = rev (b @ sep # y)" by simp
  then have "rev x @ sep # rev a = rev y @ sep # rev b" by simp
  then have "takeWhile (\<lambda>c. c \<noteq> sep) (rev x @ sep # rev a)
               = takeWhile (\<lambda>c. c \<noteq> sep) (rev y @ sep # rev b)"
    by simp
  then have "rev x = rev y" by (simp only: tw [OF assms(2)] tw [OF assms(3)])
  then show ?thesis by simp
qed

lemma generated_id_inj:
  assumes "s @ ''-'' @ number_to_string i = t @ ''-'' @ number_to_string j"
  shows "i = j"
proof -
  from assms have "s @ CHR ''-'' # number_to_string i = t @ CHR ''-'' # number_to_string j"
    by simp
  then have "number_to_string i = number_to_string j"
    by (rule tail_after_last_separator) (rule number_to_string_no_hyphen)+
  then show ?thesis by (rule number_to_string_inj)
qed

lemma assign_id_fields [simp]:
  "textContent (assign_id i h) = textContent h" "tagName (assign_id i h) = tagName h"
  by (simp_all add: assign_id_def)

lemma assigned_nth:
  "i < length hs \<Longrightarrow> map (\<lambda>(i, h). assign_id i h) (enumerate 0 hs) ! i = assign_id i (hs ! i)"
  by (simp add: nth_enumerate_eq)

lemma assigned_entries:
  "map toc_level (map toc_entry (map (\<lambda>(i, h). assign_id i h) (enumerate n hs)))
     = map (\<lambda>h. level_of_tag (tagName h)) hs"
  "map toc_text (map toc_entry (map (\<lambda>(i, h). assign_id i h) (enumerate n hs)))
     = map (\<lambda>h. trim (strip_citations (textContent h))) hs"
  by (induction hs arbitrary: n) (simp_all add: toc_entry_def)

lemma buildTOC_short:
  "length (collected_headings page) < 3 \<Longrightarrow> buildTOC page = page"
  by (simp add: buildTOC_def collected_headings_def split: option.splits)

lemma buildTOC_long:
  assumes "3 \<le> length (collected_headings page)"
  defines "hs \<equiv> map (\<lambda>(i, h). assign_id i h) (enumerate 0 (collected_headings page))"
  shows "content_headings (buildTOC page) = Some hs"
    and "floatingTocEl (buildTOC page) = map_option (\<lambda>old. tocHTML (map toc_entry hs)) (floatingTocEl page)"
    and "tocSidebar (buildTOC page) = map_option (\<lambda>old. tocSidebarHTML (map toc_entry hs)) (tocSidebar page)"
  using assms(1) unfolding hs_def
  by (auto simp: buildTOC_def collected_headings_def Let_def split: option.splits)


text \<open>
  The shape of a slug: hyphens, digits and lower-case letters only, and no hyphen at
  either end.
\<close>

lemma lower_char_not_upper: "\<not> (65 \<le> (of_char (lower_char c) :: nat) \<and> (of_char (lower_char c) :: nat) \<le> 90)"
proof -
  have "(of_char c :: nat) < 256" by simp
  then show ?thesis
    by (auto simp: lower_char_def Let_def)
qed

lemma set_collapse_separators:
  "set (collapse_separators s) \<subseteq> {c \<in> set s. \<not> isSeparator c} \<union> {CHR ''-''}"
proof (induction s rule: collapse_separators.induct)
  case 1
  show ?case by simp
next
  case (2 c cs)
  show ?case
  proof (cases "isSeparator c")
    case True
    have "set (dropWhile isSeparator cs) \<subseteq> set cs" by (rule set_dropWhileD [THEN subsetI])
    with True "2.IH"(1) show ?thesis by auto
  next
    case False
    with "2.IH"(2) show ?thesis by auto
  qed
qed

lemma set_trim_hyphens: "set (trim_hyphens s) \<subseteq> set s"
proof -
  have "set (dropWhile P (rev (dropWhile P s))) \<subseteq> set s" for P :: "char \<Rightarrow> bool"
  proof -
    have "set (dropWhile P (rev (dropWhile P s))) \<subseteq> set (rev (dropWhile P s))"
      by (auto dest: set_dropWhileD)
    also have "\<dots> = set (dropWhile P s)" by simp
    also have "\<dots> \<subseteq> set s" by (auto dest: set_dropWhileD)
    finally show ?thesis .
  qed
  then show ?thesis by (simp add: trim_hyphens_def)
qed

lemma slugify_chars:
  assumes "c \<in> set (slugify text)"
  shows "c = CHR ''-'' \<or> (isWordChar c \<and> c \<noteq> CHR ''_'' \<and> \<not> (65 \<le> (of_char c :: nat) \<and> (of_char c :: nat) \<le> 90))"
proof -
  from assms have "c \<in> set (collapse_separators (strip_symbols (toLowerCase text)))"
    using set_trim_hyphens by (auto simp: slugify_def)
  then have "c = CHR ''-'' \<or> (c \<in> set (strip_symbols (toLowerCase text)) \<and> \<not> isSeparator c)"
    using set_collapse_separators by fastforce
  then show ?thesis
  proof
    assume "c = CHR ''-''" then show ?thesis by simp
  next
    assume a: "c \<in> set (strip_symbols (toLowerCase text)) \<and> \<not> isSeparator c"
    then have w: "isWordChar c" and u: "c \<noteq> CHR ''_''"
      by (auto simp: strip_symbols_def isSeparator_def)
    from a obtain d where "c = lower_char d"
      by (auto simp: strip_symbols_def toLowerCase_def)
    with lower_char_not_upper [of d] w u show ?thesis by simp
  qed
qed

lemma dropWhile_last: "dropWhile P xs \<noteq> [] \<Longrightarrow> last (dropWhile P xs) = last xs"
  by (induction xs) (auto split: if_splits)

lemma trim_hyphens_ends:
  assumes "trim_hyphens s \<noteq> []"
  shows "hd (trim_hyphens s) \<noteq> CHR ''-'' \<and> last (trim_hyphens s) \<noteq> CHR ''-''"
proof -
  define P where "P = (\<lambda>c. c = CHR ''-'')"
  define ys where "ys = dropWhile P s"
  define zs where "zs = dropWhile P (rev ys)"
  have t: "trim_hyphens s = rev zs" by (simp add: trim_hyphens_def zs_def ys_def P_def)
  with assms have z: "zs \<noteq> []" by simp
  have y: "ys \<noteq> []"
  proof
    assume "ys = []"
    then have "zs = []" by (simp add: zs_def)
    with z show False by simp
  qed
  have "last zs = last (rev ys)" using z unfolding zs_def by (rule dropWhile_last)
  also have "\<dots> = hd ys" using y by (simp add: last_rev)
  finally have "hd (rev zs) = hd ys" using z by (simp add: hd_rev)
  moreover have "\<not> P (hd ys)" using y unfolding ys_def by (rule hd_dropWhile)
  ultimately have a: "hd (rev zs) \<noteq> CHR ''-''" by (simp add: P_def)
  have "\<not> P (hd zs)" using z unfolding zs_def by (rule hd_dropWhile)
  then have b: "last (rev zs) \<noteq> CHR ''-''" using z by (simp add: last_rev P_def)
  from a b show ?thesis unfolding t by (rule conjI)
qed

lemma slugify_ends:
  "slugify text \<noteq> [] \<Longrightarrow> hd (slugify text) \<noteq> CHR ''-'' \<and> last (slugify text) \<noteq> CHR ''-''"
  unfolding slugify_def by (rule trim_hyphens_ends)

text \<open>
  C6, as stated: any two collected headings end with distinct anchor ids. A heading that
  has an id keeps it, so a generated id can meet it: the second heading of this article,
  at index 1 with the text \<^verbatim>\<open>Intro\<close>, gets the id the first one already has.
\<close>

theorem anchors_counterexample:
  "map heading_id (collected_headings (buildTOC
      \<lparr>content_headings = Some
          [\<lparr>tagName = H2, heading_id = ''intro-1'', textContent = ''Overview''\<rparr>,
           \<lparr>tagName = H2, heading_id = [], textContent = ''Intro''\<rparr>,
           \<lparr>tagName = H2, heading_id = [], textContent = ''Notes''\<rparr>],
        floatingTocEl = None, tocSidebar = Some []\<rparr>))
   = [''intro-1'', ''intro-1'', ''notes-2'']"
  by code_simp


text \<open>
  C6, amended: when the outline is built (three or more collected headings), a heading
  that has an id keeps it, a heading without one gets the slug of its text, a hyphen and
  its index among the collected headings, and any two headings that had no id end with
  distinct ids, whatever their texts.
\<close>

theorem generated_ids:
  assumes "3 \<le> length (collected_headings page)"
  shows "\<exists>hs. content_headings (buildTOC page) = Some hs
           \<and> length hs = length (collected_headings page)
           \<and> (\<forall>i < length hs.
                 heading_id (hs ! i) =
                   (if heading_id (collected_headings page ! i) = []
                    then slugify (textContent (collected_headings page ! i)) @ ''-'' @ number_to_string i
                    else heading_id (collected_headings page ! i)))
           \<and> (\<forall>i < length hs. \<forall>j < length hs.
                 i \<noteq> j \<and> heading_id (collected_headings page ! i) = []
                       \<and> heading_id (collected_headings page ! j) = []
                 \<longrightarrow> heading_id (hs ! i) \<noteq> heading_id (hs ! j))"
proof -
  let ?old = "collected_headings page"
  let ?hs = "map (\<lambda>(i, h). assign_id i h) (enumerate 0 ?old)"
  have c: "content_headings (buildTOC page) = Some ?hs"
    using assms by (rule buildTOC_long)
  have l: "length ?hs = length ?old" by simp
  have ids: "heading_id (?hs ! i) =
               (if heading_id (?old ! i) = []
                then slugify (textContent (?old ! i)) @ ''-'' @ number_to_string i
                else heading_id (?old ! i))" if "i < length ?old" for i
    using that by (simp only: assigned_nth) (simp add: assign_id_def)
  have apart: "heading_id (?hs ! i) \<noteq> heading_id (?hs ! j)"
    if "i < length ?old" "j < length ?old" "i \<noteq> j"
       "heading_id (?old ! i) = []" "heading_id (?old ! j) = []" for i j
  proof
    assume "heading_id (?hs ! i) = heading_id (?hs ! j)"
    moreover have "heading_id (?hs ! i) = slugify (textContent (?old ! i)) @ ''-'' @ number_to_string i"
      using ids [OF that(1)] that(4) by simp
    moreover have "heading_id (?hs ! j) = slugify (textContent (?old ! j)) @ ''-'' @ number_to_string j"
      using ids [OF that(2)] that(5) by simp
    ultimately have "slugify (textContent (?old ! i)) @ ''-'' @ number_to_string i
                 = slugify (textContent (?old ! j)) @ ''-'' @ number_to_string j"
      by simp
    then have "i = j" by (rule generated_id_inj)
    with that(3) show False by simp
  qed
  show ?thesis
  proof (intro exI [of _ ?hs] conjI allI impI)
    show "content_headings (buildTOC page) = Some ?hs" by (rule c)
    show "length ?hs = length ?old" by (rule l)
  next
    fix i
    assume "i < length ?hs"
    then have "i < length ?old" by simp
    then show "heading_id (?hs ! i) =
               (if heading_id (?old ! i) = []
                then slugify (textContent (?old ! i)) @ ''-'' @ number_to_string i
                else heading_id (?old ! i))"
      by (rule ids)
  next
    fix i j
    assume "i < length ?hs" and "j < length ?hs"
      and "i \<noteq> j \<and> heading_id (?old ! i) = [] \<and> heading_id (?old ! j) = []"
    then show "heading_id (?hs ! i) \<noteq> heading_id (?hs ! j)"
      by (intro apart) simp_all
  qed
qed

theorem generated_ids_witness:
  "3 \<le> length (collected_headings sample_page)
   \<and> heading_id (collected_headings (buildTOC sample_page) ! 0) = ''notes-0''
   \<and> heading_id (collected_headings (buildTOC sample_page) ! 0)
       \<noteq> heading_id (collected_headings (buildTOC sample_page) ! 2)"
proof -
  have h: "3 \<le> length (collected_headings sample_page)" by code_simp
  have e: "collected_headings sample_page ! 0 = \<lparr>tagName = H2, heading_id = [], textContent = ''Notes''\<rparr>"
     "collected_headings sample_page ! 2 = \<lparr>tagName = H2, heading_id = [], textContent = ''Notes''\<rparr>"
     "length (collected_headings sample_page) = 3"
    by code_simp+
  have s: "slugify ''Notes'' @ CHR ''-'' # number_to_string 0 = ''notes-0''" by code_simp
  from generated_ids [OF h] obtain hs where
    hs: "content_headings (buildTOC sample_page) = Some hs" "length hs = 3"
     "\<forall>i < length hs.
                 heading_id (hs ! i) =
                   (if heading_id (collected_headings sample_page ! i) = []
                    then slugify (textContent (collected_headings sample_page ! i)) @ ''-'' @ number_to_string i
                    else heading_id (collected_headings sample_page ! i))"
     "\<forall>i < length hs. \<forall>j < length hs.
                 i \<noteq> j \<and> heading_id (collected_headings sample_page ! i) = []
                       \<and> heading_id (collected_headings sample_page ! j) = []
                 \<longrightarrow> heading_id (hs ! i) \<noteq> heading_id (hs ! j)"
    unfolding e(3) by blast
  have c: "collected_headings (buildTOC sample_page) = hs"
    using hs(1) by (simp add: collected_headings_def)
  from hs(3) hs(2) have "heading_id (hs ! 0) = ''notes-0''"
    by (simp add: e s)
  moreover from hs(4) hs(2) have "heading_id (hs ! 0) \<noteq> heading_id (hs ! 2)"
    by (simp add: e)
  ultimately show ?thesis using h unfolding c by blast
qed

section \<open>Table of contents: the markup strings\<close>

subsection \<open>Counting occurrences\<close>

lemma occurrences_none: "c0 \<notin> set s \<Longrightarrow> occurrences (c0 # r) s = 0"
  by (induction s) auto

lemma occurrences_append:
  assumes "c0 \<notin> set r" and "b = [] \<or> hd b = c0"
  shows "occurrences (c0 # r) (a @ b) = occurrences (c0 # r) a + occurrences (c0 # r) b"
proof (induction a)
  case Nil
  show ?case by simp
next
  case (Cons x a)
  have "prefix (c0 # r) (x # a @ b) \<longleftrightarrow> prefix (c0 # r) (x # a)"
  proof
    assume p: "prefix (c0 # r) (x # a @ b)"
    then have x: "x = c0" and "prefix r (a @ b)" by simp_all
    then have "prefix r a \<or> (\<exists>us. r = a @ us \<and> prefix us b)"
      by (simp add: prefix_append)
    then have "prefix r a"
    proof
      assume "prefix r a" then show ?thesis .
    next
      assume "\<exists>us. r = a @ us \<and> prefix us b"
      then obtain us where r: "r = a @ us" and pb: "prefix us b" by blast
      show ?thesis
      proof (cases us)
        case Nil
        with r show ?thesis by simp
      next
        case (Cons u us')
        with pb have "b \<noteq> []" and "hd b = u" by (auto simp: prefix_def)
        with assms(2) have "u = c0" by simp
        with r Cons have "c0 \<in> set r" by simp
        with assms(1) show ?thesis by simp
      qed
    qed
    with x show "prefix (c0 # r) (x # a)" by simp
  next
    assume "prefix (c0 # r) (x # a)"
    then show "prefix (c0 # r) (x # a @ b)" by (metis append_Cons prefix_prefix)
  qed
  with Cons.IH show ?case by simp
qed

lemma occurrences_segment:
  "c0 \<notin> set t \<Longrightarrow> occurrences (c0 # r) (c0 # t) = (if prefix r t then 1 else 0)"
  by (simp add: occurrences_none)

lemma occurrences_replicate:
  assumes "c0 \<notin> set r" and "c0 \<notin> set t"
  shows "occurrences (c0 # r) (concat (replicate n (c0 # t))) = n * (if prefix r t then 1 else 0)"
proof (induction n)
  case 0
  show ?case by simp
next
  case (Suc n)
  have "concat (replicate n (c0 # t)) = [] \<or> hd (concat (replicate n (c0 # t))) = c0"
    by (cases n) simp_all
  then have "occurrences (c0 # r) ((c0 # t) @ concat (replicate n (c0 # t)))
          = occurrences (c0 # r) (c0 # t) + occurrences (c0 # r) (concat (replicate n (c0 # t)))"
    using assms(1) by (intro occurrences_append) simp_all
  with Suc show ?case using assms(2) by (simp add: occurrences_none)
qed

subsection \<open>Digits\<close>

lemma digit_char_not_lt: "k < 10 \<Longrightarrow> digit_char k \<noteq> CHR ''<''"
proof
  assume "k < 10" and "digit_char k = CHR ''<''"
  then have "(of_char (CHR ''<'') :: nat) = 48 + k" by (simp add: of_char_digit [symmetric])
  with \<open>k < 10\<close> show False by simp
qed

lemma number_to_string_no_lt: "CHR ''<'' \<notin> set (number_to_string n)"
proof (induction n rule: number_to_string.induct)
  case (1 n)
  show ?case
  proof (cases "n < 10")
    case True
    then show ?thesis
      using digit_char_not_lt [of n] by (subst number_to_string.simps) auto
  next
    case False
    have "n mod 10 < 10" by simp
    then have "digit_char (n mod 10) \<noteq> CHR ''<''" by (rule digit_char_not_lt)
    with False "1.IH" show ?thesis by (subst number_to_string.simps) auto
  qed
qed

lemma occurrences_four:
  assumes "c0 \<notin> set r" and "c0 \<notin> set t1" and "c0 \<notin> set t2" and "c0 \<notin> set t3" and "c0 \<notin> set t4"
  shows "occurrences (c0 # r) ((c0 # t1) @ (c0 # t2) @ (c0 # t3) @ (c0 # t4))
           = (if prefix r t1 then 1 else 0) + (if prefix r t2 then 1 else 0)
             + (if prefix r t3 then 1 else 0) + (if prefix r t4 then 1 else 0)"
proof -
  have a: "occurrences (c0 # r) ((c0 # t3) @ (c0 # t4))
             = occurrences (c0 # r) (c0 # t3) + occurrences (c0 # r) (c0 # t4)"
    using assms(1) by (intro occurrences_append) simp_all
  have b: "occurrences (c0 # r) ((c0 # t2) @ ((c0 # t3) @ (c0 # t4)))
             = occurrences (c0 # r) (c0 # t2) + occurrences (c0 # r) ((c0 # t3) @ (c0 # t4))"
    using assms(1) by (intro occurrences_append) simp_all
  have c: "occurrences (c0 # r) ((c0 # t1) @ ((c0 # t2) @ ((c0 # t3) @ (c0 # t4))))
             = occurrences (c0 # r) (c0 # t1) + occurrences (c0 # r) ((c0 # t2) @ ((c0 # t3) @ (c0 # t4)))"
    using assms(1) by (intro occurrences_append) simp_all
  show ?thesis
    unfolding c b a
    by (simp only: occurrences_segment [OF assms(2)] occurrences_segment [OF assms(3)]
          occurrences_segment [OF assms(4)] occurrences_segment [OF assms(5)] add.assoc)
qed

lemma nested_item_count:
  assumes "CHR ''<'' \<notin> set (toc_id item)" and "CHR ''<'' \<notin> set r"
  shows \<open>occurrences (CHR ''<'' # r) (nested_item_markup item)
           = (if prefix r (''li class="toc-h'' @ number_to_string (toc_level item) @ ''">'') then 1 else 0)
             + (if prefix r (''a href="#'' @ toc_id item @ ''">'' @ escapeHtml (toc_text item)) then 1 else 0)
             + (if prefix r ''/a>'' then 1 else 0) + (if prefix r ''/li>'' then 1 else 0)\<close>
proof -
  define t1 where \<open>t1 = ''li class="toc-h'' @ number_to_string (toc_level item) @ ''">''\<close>
  define t2 where \<open>t2 = ''a href="#'' @ toc_id item @ ''">'' @ escapeHtml (toc_text item)\<close>
  have e: "nested_item_markup item = (CHR ''<'' # t1) @ (CHR ''<'' # t2) @ (CHR ''<'' # ''/a>'') @ (CHR ''<'' # ''/li>'')"
    by (simp add: nested_item_markup_def t1_def t2_def)
  have c1: "CHR ''<'' \<notin> set t1"
    using number_to_string_no_lt [of "toc_level item"] by (simp add: t1_def)
  have c2: "CHR ''<'' \<notin> set t2"
    using assms(1) escapeHtml_no_angle [of "toc_text item"] by (simp add: t2_def)
  have c3: "CHR ''<'' \<notin> set ''/a>''" and c4: "CHR ''<'' \<notin> set ''/li>''" by simp_all
  have "occurrences (CHR ''<'' # r) (nested_item_markup item)
          = occurrences (CHR ''<'' # r) ((CHR ''<'' # t1) @ (CHR ''<'' # t2) @ (CHR ''<'' # ''/a>'') @ (CHR ''<'' # ''/li>''))"
    by (simp only: e)
  also have "\<dots> = (if prefix r t1 then 1 else 0) + (if prefix r t2 then 1 else 0)
             + (if prefix r ''/a>'' then 1 else 0) + (if prefix r ''/li>'' then 1 else 0)"
    by (rule occurrences_four [OF assms(2) c1 c2 c3 c4])
  finally show ?thesis unfolding t1_def t2_def .
qed

lemma sidebar_item_count:
  assumes "CHR ''<'' \<notin> set (toc_id item)" and "CHR ''<'' \<notin> set r"
  shows \<open>occurrences (CHR ''<'' # r) (sidebar_item_markup item)
           = (if prefix r ''li>'' then 1 else 0)
             + (if prefix r (''a href="#'' @ toc_id item @ ''" class="toc-h''
                   @ number_to_string (toc_level item) @ ''">'' @ escapeHtml (toc_text item)) then 1 else 0)
             + (if prefix r ''/a>'' then 1 else 0) + (if prefix r ''/li>'' then 1 else 0)\<close>
proof -
  define t2 where \<open>t2 = ''a href="#'' @ toc_id item @ ''" class="toc-h''
                   @ number_to_string (toc_level item) @ ''">'' @ escapeHtml (toc_text item)\<close>
  have e: "sidebar_item_markup item = (CHR ''<'' # ''li>'') @ (CHR ''<'' # t2) @ (CHR ''<'' # ''/a>'') @ (CHR ''<'' # ''/li>'')"
    by (simp add: sidebar_item_markup_def t2_def)
  have c1: "CHR ''<'' \<notin> set ''li>''" by simp
  have c2: "CHR ''<'' \<notin> set t2"
    using assms(1) escapeHtml_no_angle [of "toc_text item"] number_to_string_no_lt [of "toc_level item"]
    by (simp add: t2_def)
  have c3: "CHR ''<'' \<notin> set ''/a>''" and c4: "CHR ''<'' \<notin> set ''/li>''" by simp_all
  have "occurrences (CHR ''<'' # r) (sidebar_item_markup item)
          = occurrences (CHR ''<'' # r) ((CHR ''<'' # ''li>'') @ (CHR ''<'' # t2) @ (CHR ''<'' # ''/a>'') @ (CHR ''<'' # ''/li>''))"
    by (simp only: e)
  also have "\<dots> = (if prefix r ''li>'' then 1 else 0) + (if prefix r t2 then 1 else 0)
             + (if prefix r ''/a>'' then 1 else 0) + (if prefix r ''/li>'' then 1 else 0)"
    by (rule occurrences_four [OF assms(2) c1 c2 c3 c4])
  finally show ?thesis unfolding t2_def .
qed

lemma nested_item_occurrences:
  assumes "CHR ''<'' \<notin> set (toc_id item)"
  shows "occurrences ''<li'' (nested_item_markup item) = 1"
    and "occurrences ''<ol>'' (nested_item_markup item) = 0"
    and "occurrences ''</ol>'' (nested_item_markup item) = 0"
proof -
  show "occurrences ''<li'' (nested_item_markup item) = 1"
    by (subst nested_item_count [OF assms]) simp_all
  show "occurrences ''<ol>'' (nested_item_markup item) = 0"
    by (subst nested_item_count [OF assms]) simp_all
  show "occurrences ''</ol>'' (nested_item_markup item) = 0"
    by (subst nested_item_count [OF assms]) simp_all
qed

lemma sidebar_item_occurrences:
  assumes "CHR ''<'' \<notin> set (toc_id item)"
  shows "occurrences ''<li'' (sidebar_item_markup item) = 1"
  by (subst sidebar_item_count [OF assms]) simp_all

lemma serialize_items:
  "serialize (NestedItem item) = nested_item_markup item"
  "serialize (SidebarItem item) = sidebar_item_markup item"
  by (simp_all add: nested_item_markup_def sidebar_item_markup_def)

lemma clean_piece_occurrences:
  assumes "clean_piece p"
  shows "occurrences ''<li'' (serialize p) = length (entry_of p)
         \<and> occurrences ''<ol>'' (serialize p) = (if p = OlOpen then 1 else 0)
         \<and> occurrences ''</ol>'' (serialize p) = (if p = OlClose then 1 else 0)"
proof (cases p)
  case (Lit s)
  with assms show ?thesis by simp
next
  case OlOpen
  then show ?thesis by simp
next
  case OlClose
  then show ?thesis by simp
next
  case (NestedItem item)
  with assms have c: "CHR ''<'' \<notin> set (toc_id item)" by simp
  show ?thesis
    unfolding NestedItem serialize_items
    by (simp add: nested_item_occurrences [OF c])
next
  case (SidebarItem item)
  with assms have c: "CHR ''<'' \<notin> set (toc_id item)" by simp
  have o: "occurrences ''<ol>'' (sidebar_item_markup item) = 0"
    by (subst sidebar_item_count [OF c]) simp_all
  have l: "occurrences ''</ol>'' (sidebar_item_markup item) = 0"
    by (subst sidebar_item_count [OF c]) simp_all
  show ?thesis
    unfolding SidebarItem serialize_items
    by (simp add: sidebar_item_occurrences [OF c] o l)
qed

lemma markup_simps [simp]:
  "markup [] = []" "markup (p # ps) = serialize p @ markup ps" "markup (ps @ qs) = markup ps @ markup qs"
  by (simp_all add: markup_def)

lemma clean_markup_start:
  assumes "\<forall>p \<in> set ps. clean_piece p"
  shows "markup ps = [] \<or> hd (markup ps) = CHR ''<''"
proof (cases ps)
  case Nil
  then show ?thesis by simp
next
  case (Cons p qs)
  with assms have "clean_piece p" by simp
  then have "hd (serialize p @ markup qs) = CHR ''<''" by (cases p) simp_all
  with Cons show ?thesis by simp
qed

lemma occurrences_markup:
  assumes "\<forall>p \<in> set ps. clean_piece p" and "CHR ''<'' \<notin> set r"
  shows "occurrences (CHR ''<'' # r) (markup ps)
           = sum_list (map (\<lambda>p. occurrences (CHR ''<'' # r) (serialize p)) ps)"
  using assms(1)
proof (induction ps)
  case Nil
  show ?case by simp
next
  case (Cons p ps)
  then have "markup ps = [] \<or> hd (markup ps) = CHR ''<''" by (intro clean_markup_start) simp
  then have "occurrences (CHR ''<'' # r) (serialize p @ markup ps)
               = occurrences (CHR ''<'' # r) (serialize p) + occurrences (CHR ''<'' # r) (markup ps)"
    using assms(2) by (intro occurrences_append)
  with Cons show ?case by simp
qed

lemma sum_list_indicator: "sum_list (map (\<lambda>p. if p = x then 1 else 0) ps) = count_list ps x"
  by (induction ps) simp_all

lemma clean_markup_counts:
  assumes "\<forall>p \<in> set ps. clean_piece p"
  shows "occurrences ''<li'' (markup ps) = length (rendered_entries ps)"
    and "occurrences ''<ol>'' (markup ps) = count_list ps OlOpen"
    and "occurrences ''</ol>'' (markup ps) = count_list ps OlClose"
proof -
  have "occurrences ''<li'' (markup ps) = sum_list (map (\<lambda>p. occurrences ''<li'' (serialize p)) ps)"
    using assms by (intro occurrences_markup) simp_all
  also have "\<dots> = sum_list (map (\<lambda>p. length (entry_of p)) ps)"
    using assms by (intro arg_cong [where f = sum_list] map_cong refl) (simp add: clean_piece_occurrences)
  also have "\<dots> = length (rendered_entries ps)"
    by (simp add: rendered_entries_def length_concat comp_def)
  finally show "occurrences ''<li'' (markup ps) = length (rendered_entries ps)" .
  have "occurrences ''<ol>'' (markup ps) = sum_list (map (\<lambda>p. occurrences ''<ol>'' (serialize p)) ps)"
    using assms by (intro occurrences_markup) simp_all
  also have "\<dots> = sum_list (map (\<lambda>p. if p = OlOpen then 1 else 0) ps)"
    using assms by (intro arg_cong [where f = sum_list] map_cong refl) (simp add: clean_piece_occurrences)
  finally show "occurrences ''<ol>'' (markup ps) = count_list ps OlOpen"
    by (simp only: sum_list_indicator)
  have "occurrences ''</ol>'' (markup ps) = sum_list (map (\<lambda>p. occurrences ''</ol>'' (serialize p)) ps)"
    using assms by (intro occurrences_markup) simp_all
  also have "\<dots> = sum_list (map (\<lambda>p. if p = OlClose then 1 else 0) ps)"
    using assms by (intro arg_cong [where f = sum_list] map_cong refl) (simp add: clean_piece_occurrences)
  finally show "occurrences ''</ol>'' (markup ps) = count_list ps OlClose"
    by (simp only: sum_list_indicator)
qed

subsection \<open>The pieces of the nested list\<close>

lemma nested_step_pieces:
  "set (fst (nested_step item st)) \<subseteq> set (fst st) \<union> {OlOpen, OlClose, NestedItem item}"
  by (auto simp: nested_step_def Let_def)

lemma fold_nested_step_pieces:
  "set (fst (fold nested_step items st)) \<subseteq> set (fst st) \<union> {OlOpen, OlClose} \<union> NestedItem ` set items"
proof (induction items arbitrary: st)
  case Nil
  show ?case by auto
next
  case (Cons item items)
  have "set (fst (fold nested_step items (nested_step item st)))
          \<subseteq> set (fst (nested_step item st)) \<union> {OlOpen, OlClose} \<union> NestedItem ` set items"
    by (rule Cons.IH)
  with nested_step_pieces [of item st] show ?case by auto
qed

lemma buildNestedTOC_pieces:
  "set (buildNestedTOC items) \<subseteq> {OlOpen, OlClose} \<union> NestedItem ` set items"
  using fold_nested_step_pieces [of items "([OlOpen], 2)"]
  by (auto simp: buildNestedTOC_def Let_def)

lemma buildNestedTOC_clean:
  assumes "\<forall>item \<in> set items. CHR ''<'' \<notin> set (toc_id item)"
  shows "\<forall>p \<in> set (buildNestedTOC items). clean_piece p"
  using buildNestedTOC_pieces [of items] assms by auto

lemma buildNestedTOC_start: "\<exists>ps. buildNestedTOC items = OlOpen # ps"
proof -
  have "\<exists>ps. fst (fold nested_step items st) = hd (fst st) # ps" if "fst st \<noteq> []" for st
    using that
  proof (induction items arbitrary: st)
    case Nil
    then show ?case by (cases "fst st") auto
  next
    case (Cons item items)
    have n: "fst (nested_step item st) \<noteq> []" by (simp add: nested_step_def Let_def)
    have "hd (fst (nested_step item st)) = hd (fst st)"
      using Cons.prems by (simp add: nested_step_def Let_def)
    with Cons.IH [OF n] show ?case by simp
  qed
  from this [of "([OlOpen], 2)"] show ?thesis by (auto simp: buildNestedTOC_def Let_def)
qed

subsection \<open>The walk\<close>

lemma markup_replicate:
  "markup (replicate n OlOpen) = concat (replicate n ''<ol>'')"
  "markup (replicate n OlClose) = concat (replicate n ''</ol>'')"
  by (induction n) simp_all

lemma fold_nested_step_walk:
  assumes "\<forall>item \<in> set items. 2 \<le> toc_level item" and "2 \<le> prev"
  shows "markup (fst (fold nested_step items (html, prev))
                  @ replicate (max (snd (fold nested_step items (html, prev)) - 1) 1) OlClose)
           = markup html @ nested_walk prev items"
  using assms
proof (induction items arbitrary: html prev)
  case Nil
  then have "max (prev - 1) 1 = prev - 1" by simp
  then show ?case by (simp add: markup_replicate)
next
  case (Cons item items)
  have l: "2 \<le> toc_level item" using Cons.prems(1) by simp
  define h where "h = fst (nested_step item (html, prev))"
  have st: "nested_step item (html, prev) = (h, toc_level item)"
    by (simp add: h_def nested_step_def Let_def)
  have f: "markup h = markup html
             @ (if prev < toc_level item then concat (replicate (toc_level item - prev) ''<ol>'')
                else concat (replicate (prev - toc_level item) ''</ol>''))
             @ nested_item_markup item"
    by (simp add: h_def nested_step_def Let_def markup_replicate serialize_items del: serialize.simps)
  have "markup (fst (fold nested_step items (h, toc_level item))
                  @ replicate (max (snd (fold nested_step items (h, toc_level item)) - 1) 1) OlClose)
           = markup h @ nested_walk (toc_level item) items"
    using Cons.prems(1) l by (intro Cons.IH) simp_all
  then have "markup (fst (fold nested_step (item # items) (html, prev))
                  @ replicate (max (snd (fold nested_step (item # items) (html, prev)) - 1) 1) OlClose)
           = markup h @ nested_walk (toc_level item) items"
    by (simp only: fold_simps st)
  also have "\<dots> = markup html @ nested_walk prev (item # items)"
    by (simp only: f nested_walk.simps append_assoc)
  finally show ?case .
qed

lemma buildNestedTOC_walk:
  assumes "\<forall>item \<in> set items. 2 \<le> toc_level item"
  shows "markup (buildNestedTOC items) = ''<ol>'' @ nested_walk 2 items"
  using fold_nested_step_walk [OF assms, of 2 "[OlOpen]"]
  by (simp add: buildNestedTOC_def Let_def)

lemma nested_markup_balanced:
  assumes "\<forall>item \<in> set items. toc_level item \<in> {2, 3, 4}"
    and "\<forall>item \<in> set items. CHR ''<'' \<notin> set (toc_id item)"
  shows "occurrences ''<ol>'' (markup (buildNestedTOC items))
           = occurrences ''</ol>'' (markup (buildNestedTOC items))"
proof -
  have c: "\<forall>p \<in> set (buildNestedTOC items). clean_piece p"
    using assms(2) by (rule buildNestedTOC_clean)
  have "\<forall>item \<in> set items. 2 \<le> toc_level item" using assms(1) by auto
  then have d: "depth_after 0 (buildNestedTOC items) = Some 0" by (rule buildNestedTOC_depth)
  from depth_after_counts [OF d]
  have "count_list (buildNestedTOC items) OlOpen = count_list (buildNestedTOC items) OlClose" by simp
  then show ?thesis by (simp only: clean_markup_counts [OF c])
qed

lemma toc_entry_heading: "toc_entry h = entry_of_heading h"
  by (cases "tagName h") (simp_all add: toc_entry_def entry_of_heading_def)

lemma map_toc_entry: "map toc_entry hs = map entry_of_heading hs"
  by (rule map_cong [OF refl]) (rule toc_entry_heading)

lemma entry_level_bounds: "2 \<le> toc_level (entry_of_heading h)"
  by (cases "tagName h") (simp_all add: entry_of_heading_def)

lemma slugify_no_lt: "CHR ''<'' \<notin> set (slugify t)"
proof
  assume "CHR ''<'' \<in> set (slugify t)"
  from slugify_chars [OF this] show False by (simp add: isWordChar_def)
qed

lemma assign_id_clean:
  "CHR ''<'' \<notin> set (heading_id h) \<Longrightarrow> CHR ''<'' \<notin> set (heading_id (assign_id i h))"
  by (simp add: assign_id_def slugify_no_lt number_to_string_no_lt)

lemma assigned_clean:
  assumes "\<forall>h \<in> set hs. CHR ''<'' \<notin> set (heading_id h)"
  shows "\<forall>h \<in> set (map (\<lambda>(i, h). assign_id i h) (enumerate n hs)). CHR ''<'' \<notin> set (heading_id h)"
  using assms by (induction hs arbitrary: n) (simp_all add: assign_id_clean)

lemma assigned_fields:
  "map tagName (map (\<lambda>(i, h). assign_id i h) (enumerate n hs)) = map tagName hs"
  "map textContent (map (\<lambda>(i, h). assign_id i h) (enumerate n hs)) = map textContent hs"
  by (induction hs arbitrary: n) simp_all

lemma markup_sidebar_items:
  "markup (map SidebarItem items) = concat (map sidebar_item_markup items)"
  by (induction items) (simp_all add: serialize_items del: serialize.simps)

lemma tocHTML_markup:
  \<open>markup (tocHTML (map toc_entry hs))
     = ''\<newline>      <div class="wiki-toc-title">Contents</div>\<newline>      <ol>''
         @ nested_walk 2 (map entry_of_heading hs)\<close>
proof -
  have "\<forall>item \<in> set (map entry_of_heading hs). 2 \<le> toc_level item"
    by (simp add: entry_level_bounds)
  from buildNestedTOC_walk [OF this]
  have "markup (buildNestedTOC (map entry_of_heading hs)) = ''<ol>'' @ nested_walk 2 (map entry_of_heading hs)" .
  then show ?thesis by (simp add: tocHTML_def map_toc_entry)
qed

lemma tocHTML_count:
  assumes "\<forall>h \<in> set hs. CHR ''<'' \<notin> set (heading_id h)"
  shows "occurrences ''<li'' (markup (tocHTML (map toc_entry hs))) = length hs"
proof -
  let ?items = "map toc_entry hs"
  have c: "\<forall>p \<in> set (buildNestedTOC ?items). clean_piece p"
    using assms by (intro buildNestedTOC_clean) (simp add: toc_entry_def)
  have n: "occurrences ''<li'' (markup (buildNestedTOC ?items)) = length hs"
    by (simp only: clean_markup_counts(1) [OF c] rendered_entries_nested length_map)
  have t: \<open>occurrences ''<li'' ''\<newline>      <div class="wiki-toc-title">Contents</div>\<newline>      '' = 0\<close>
    by code_simp
  have "markup (buildNestedTOC ?items) = [] \<or> hd (markup (buildNestedTOC ?items)) = CHR ''<''"
    using c by (rule clean_markup_start)
  then have \<open>occurrences ''<li'' (''\<newline>      <div class="wiki-toc-title">Contents</div>\<newline>      ''
                @ markup (buildNestedTOC ?items))
          = occurrences ''<li'' ''\<newline>      <div class="wiki-toc-title">Contents</div>\<newline>      ''
            + occurrences ''<li'' (markup (buildNestedTOC ?items))\<close>
    by (intro occurrences_append) simp_all
  then show ?thesis by (simp only: t n tocHTML_def markup_simps serialize.simps)
qed

lemma tocSidebarHTML_markup:
  \<open>markup (tocSidebarHTML (map toc_entry hs))
     = ''\<newline>        <div class="toc-sidebar-title">On This Page</div>''
         @ ''\<newline>        <ul class="toc-sidebar-list">''
         @ concat (map (\<lambda>h. sidebar_item_markup (entry_of_heading h)) hs) @ ''</ul>''\<close>
proof -
  have "markup (map SidebarItem (map entry_of_heading hs))
          = concat (map sidebar_item_markup (map entry_of_heading hs))"
    by (rule markup_sidebar_items)
  also have "\<dots> = concat (map (\<lambda>h. sidebar_item_markup (entry_of_heading h)) hs)"
    by (simp add: o_def)
  finally show ?thesis
    by (simp add: tocSidebarHTML_def tocSidebarItems_def map_toc_entry del: map_map)
qed

lemma tocSidebarHTML_count:
  assumes "\<forall>h \<in> set hs. CHR ''<'' \<notin> set (heading_id h)"
  shows "occurrences ''<li'' (markup (tocSidebarHTML (map toc_entry hs))) = length hs"
proof -
  let ?items = "map toc_entry hs"
  let ?m = "markup (map SidebarItem ?items)"
  let ?hdr = \<open>''\<newline>        <div class="toc-sidebar-title">On This Page</div>''
         @ ''\<newline>        <ul class="toc-sidebar-list">''\<close>
  have c: "\<forall>p \<in> set (map SidebarItem ?items). clean_piece p"
    using assms by (simp add: toc_entry_def)
  have n: "occurrences ''<li'' ?m = length hs"
    by (simp only: clean_markup_counts(1) [OF c] rendered_entries_sidebar_items length_map)
  have h: "occurrences ''<li'' ?hdr = 0" by code_simp
  have u: "occurrences ''<li'' ''</ul>'' = 0" by code_simp
  have a: "occurrences ''<li'' (?m @ ''</ul>'') = occurrences ''<li'' ?m + occurrences ''<li'' ''</ul>''"
    by (intro occurrences_append) simp_all
  have "?m = [] \<or> hd ?m = CHR ''<''" using c by (rule clean_markup_start)
  then have "hd (?m @ ''</ul>'') = CHR ''<''" by (cases ?m) auto
  then have b: "occurrences ''<li'' (?hdr @ (?m @ ''</ul>''))
                 = occurrences ''<li'' ?hdr + occurrences ''<li'' (?m @ ''</ul>'')"
    by (intro occurrences_append) simp_all
  have "markup (tocSidebarHTML ?items) = ?hdr @ (?m @ ''</ul>'')"
    by (simp add: tocSidebarHTML_def tocSidebarItems_def)
  then show ?thesis by (simp only: b a h u n)
qed







text \<open>
  The markup of the nested list is the walk of the specification, and for ids without
  \<^verbatim>\<open><\<close> it is balanced: \<open>buildNestedTOC_walk\<close> and \<open>nested_markup_balanced\<close> above.

  C7 claims the balance for every sequence of entries with levels among 2, 3 and 4. The
  item template escapes the text of an entry and not its id, so an id that holds a tag is
  written into the markup as a tag: with the id \<^verbatim>\<open>x"><ol><li>\<close> on the first of three
  entries the markup opens three lists and closes two.
\<close>

theorem nested_markup_unbalanced:
  \<open>list_all (\<lambda>item. toc_level item \<in> {2, 3, 4})
      [\<lparr>toc_id = ''x"><ol><li>'', toc_text = ''A'', toc_level = 2\<rparr>,
       \<lparr>toc_id = ''b'', toc_text = ''B'', toc_level = 3\<rparr>,
       \<lparr>toc_id = ''c'', toc_text = ''C'', toc_level = 2\<rparr>]
   \<and> markup (buildNestedTOC
        [\<lparr>toc_id = ''x"><ol><li>'', toc_text = ''A'', toc_level = 2\<rparr>,
         \<lparr>toc_id = ''b'', toc_text = ''B'', toc_level = 3\<rparr>,
         \<lparr>toc_id = ''c'', toc_text = ''C'', toc_level = 2\<rparr>])
       = ''<ol><li class="toc-h2"><a href="#x"><ol><li>">A</a></li>''
         @ ''<ol><li class="toc-h3"><a href="#b">B</a></li></ol>''
         @ ''<li class="toc-h2"><a href="#c">C</a></li></ol>''
   \<and> occurrences ''<ol>'' (markup (buildNestedTOC
        [\<lparr>toc_id = ''x"><ol><li>'', toc_text = ''A'', toc_level = 2\<rparr>,
         \<lparr>toc_id = ''b'', toc_text = ''B'', toc_level = 3\<rparr>,
         \<lparr>toc_id = ''c'', toc_text = ''C'', toc_level = 2\<rparr>])) = 3
   \<and> occurrences ''</ol>'' (markup (buildNestedTOC
        [\<lparr>toc_id = ''x"><ol><li>'', toc_text = ''A'', toc_level = 2\<rparr>,
         \<lparr>toc_id = ''b'', toc_text = ''B'', toc_level = 3\<rparr>,
         \<lparr>toc_id = ''c'', toc_text = ''C'', toc_level = 2\<rparr>])) = 2\<close>
  by code_simp


section \<open>Page chrome: building it twice\<close>

lemma count_elements_simps [simp]:
  "count_elements i [] = 0"
  "count_elements i (n # ns) = count_id i n + count_elements i ns"
  "count_elements i (ns @ ms) = count_elements i ns + count_elements i ms"
  by (simp_all add: count_elements_def)

lemma querySelector_simps [simp]:
  "querySelector i [] = False"
  "querySelector i (n # ns) = (has_id i n \<or> querySelector i ns)"
  "querySelector i (ns @ ms) = (querySelector i ns \<or> querySelector i ms)"
  by (simp_all add: querySelector_def)


lemma has_id_count: "has_id i n \<longleftrightarrow> 0 < count_id i n"
proof (induction n)
  case (Element t j as ks)
  have "list_ex (has_id i) ks \<longleftrightarrow> (\<exists>k \<in> set ks. 0 < count_id i k)"
    using Element.IH by (simp add: list_ex_iff)
  also have "\<dots> \<longleftrightarrow> 0 < sum_list (map (count_id i) ks)"
  proof -
    have "sum_list (map (count_id i) ks) = 0 \<longleftrightarrow> (\<forall>k \<in> set ks. count_id i k = 0)"
      by (simp add: sum_list_eq_0_iff)
    then show ?thesis by (metis gr0I less_numeral_extra(3))
  qed
  finally have "list_ex (has_id i) ks \<longleftrightarrow> 0 < sum_list (map (count_id i) ks)" .
  then show ?case by simp
next
  case (Markup s)
  show ?case by simp
qed

lemma querySelector_count: "querySelector i ns \<longleftrightarrow> 0 < count_elements i ns"
  by (induction ns) (simp_all add: has_id_count)

lemma count_layout_around:
  "count_id i (layout_around env n) = count_id i n + shell_count i"
  by (simp add: layout_around_def shell_count_def)

lemma wrap_count:
  "wrap_node env n = Some n' \<Longrightarrow> count_id i n' = count_id i n + shell_count i"
  "wrap_nodes env ns = Some ns' \<Longrightarrow> count_elements i ns' = count_elements i ns + shell_count i"
proof (induction env n and env ns arbitrary: n' and ns' rule: wrap_node_wrap_nodes.induct)
  case (1 env t j as ks)
  show ?case
  proof (cases "j = ''wiki-content''")
    case True
    with "1.prems" have "n' = layout_around env (Element t j as ks)" by simp
    then show ?thesis by (simp only: count_layout_around)
  next
    case False
    with "1.prems" obtain ks' where k: "wrap_nodes env ks = Some ks'" and n: "n' = Element t j as ks'"
      by auto
    from "1.IH" [OF False k] have "count_elements i ks' = count_elements i ks + shell_count i" .
    then show ?thesis by (simp add: n count_elements_def)
  qed
next
  case (2 env s)
  then show ?case by simp
next
  case (3 env)
  then show ?case by simp
next
  case (4 env n ns)
  show ?case
  proof (cases "wrap_node env n")
    case None
    with "4.prems" obtain ms where m: "wrap_nodes env ns = Some ms" and r: "ns' = n # ms"
      by auto
    from "4.IH"(2) [OF None m] show ?thesis by (simp add: r)
  next
    case (Some m)
    with "4.prems" have r: "ns' = m # ns" by simp
    from "4.IH"(1) [OF Some] show ?thesis by (simp add: r)
  qed
qed

lemma wrap_none:
  "wrap_node env n = None \<longleftrightarrow> \<not> has_id ''wiki-content'' n"
  "wrap_nodes env ns = None \<longleftrightarrow> \<not> querySelector ''wiki-content'' ns"
  by (induction env n and env ns rule: wrap_node_wrap_nodes.induct)
     (auto simp: querySelector_def split: option.splits)

lemma update_title_body [simp]: "body (update_title env d) = body d"
  by (simp add: update_title_def split: option.splits)

lemma update_title_idem: "update_title env (update_title env d) = update_title env d"
  by (simp add: update_title_def split: option.splits)

lemma add_header_count:
  "count_elements i (body (add_header env d)) =
     count_elements i (body d)
       + (if i = ''wiki-header'' \<and> count_elements ''wiki-header'' (body d) = 0 then 1 else 0)"
  by (simp add: add_header_def querySelector_count)

lemma add_footer_count:
  "count_elements i (body (add_footer env d)) =
     count_elements i (body d)
       + (if i = ''wiki-footer'' \<and> count_elements ''wiki-footer'' (body d) = 0 then 1 else 0)"
  by (simp add: add_footer_def querySelector_count)

lemma wrap_content_count:
  "count_elements i (body (wrap_content env d)) =
     count_elements i (body d)
       + (if count_elements ''wiki-layout'' (body d) = 0 \<and> querySelector ''wiki-content'' (body d)
          then shell_count i else 0)"
proof (cases "wrap_nodes env (body d)")
  case None
  then have "\<not> querySelector ''wiki-content'' (body d)" by (simp add: wrap_none)
  with None show ?thesis by (simp add: wrap_content_def)
next
  case (Some w)
  then have q: "querySelector ''wiki-content'' (body d)"
    using wrap_none(2) [of env "body d"] by simp
  from wrap_count(2) [OF Some] have "count_elements i w = count_elements i (body d) + shell_count i" .
  with Some q show ?thesis by (simp add: wrap_content_def querySelector_count)
qed

lemma add_header_present: "querySelector ''wiki-header'' (body d) \<Longrightarrow> add_header env d = d"
  by (simp add: add_header_def)

lemma add_footer_present: "querySelector ''wiki-footer'' (body d) \<Longrightarrow> add_footer env d = d"
  by (simp add: add_footer_def)

lemma wrap_content_idem: "wrap_content env (wrap_content env d) = wrap_content env d"
proof (cases "querySelector ''wiki-layout'' (body d)")
  case True
  then show ?thesis by (simp add: wrap_content_def update_title_idem)
next
  case False
  show ?thesis
  proof (cases "wrap_nodes env (body d)")
    case None
    with False show ?thesis by (simp add: wrap_content_def)
  next
    case (Some w)
    from wrap_count(2) [OF Some, of "''wiki-layout''"]
    have "querySelector ''wiki-layout'' w" by (simp add: querySelector_count shell_count_def)
    with False Some show ?thesis by (simp add: wrap_content_def update_title_idem)
  qed
qed

lemma buildLayout_count:
  "count_elements i (body (buildLayout env d)) =
     count_elements i (body d)
       + (if i = ''wiki-header'' \<and> count_elements ''wiki-header'' (body d) = 0 then 1 else 0)
       + (if i = ''wiki-footer'' \<and> count_elements ''wiki-footer'' (body d) = 0 then 1 else 0)
       + (if count_elements ''wiki-layout'' (body d) = 0 \<and> querySelector ''wiki-content'' (body d)
          then shell_count i else 0)"
  by (simp add: buildLayout_def wrap_content_count add_footer_count add_header_count
        querySelector_count)

lemma buildLayout_idem: "buildLayout env (buildLayout env d) = buildLayout env d"
proof -
  let ?r = "buildLayout env d"
  have "0 < count_elements ''wiki-header'' (body ?r)" by (simp add: buildLayout_count)
  then have h: "add_header env ?r = ?r" by (simp add: add_header_present querySelector_count)
  have "0 < count_elements ''wiki-footer'' (body ?r)" by (simp add: buildLayout_count)
  then have f: "add_footer env ?r = ?r" by (simp add: add_footer_present querySelector_count)
  have "buildLayout env ?r = wrap_content env ?r"
    by (simp add: buildLayout_def [of env ?r] h f)
  also have "\<dots> = ?r" by (simp add: buildLayout_def [of env d] wrap_content_idem)
  finally show ?thesis .
qed

text \<open>
  C8, as stated: building the chrome twice leaves exactly one header, one footer and one
  layout wrapper. A document without a content element gets no wrapper, neither the
  first time nor the second.
\<close>

theorem chrome_counterexample:
  "count_elements ''wiki-layout''
     (body (buildLayout sample_env (buildLayout sample_env
        \<lparr>doc_title = ''Home'', body = [Element ''p'' [] [] [Markup ''Welcome'']]\<rparr>))) = 0"
  by code_simp

text \<open>
  C8, amended: building the chrome twice gives the document that building it once gives.
  A header and a footer are created where there is none and left alone otherwise, so the
  document ends with one of each, or with as many as it had. A wrapper is created only
  where there is none and the document has a content element: such a document ends with
  exactly one wrapper, and a document without content element ends with the wrappers it
  had, none if it had none.
\<close>

theorem chrome_idempotent:
  "buildLayout env (buildLayout env d) = buildLayout env d
   \<and> count_elements ''wiki-header'' (body (buildLayout env (buildLayout env d)))
       = max 1 (count_elements ''wiki-header'' (body d))
   \<and> count_elements ''wiki-footer'' (body (buildLayout env (buildLayout env d)))
       = max 1 (count_elements ''wiki-footer'' (body d))
   \<and> count_elements ''wiki-layout'' (body (buildLayout env (buildLayout env d)))
       = (if count_elements ''wiki-layout'' (body d) = 0 \<and> querySelector ''wiki-content'' (body d)
          then 1 else count_elements ''wiki-layout'' (body d))"
  unfolding buildLayout_idem
  by (simp add: buildLayout_count shell_count_def)

theorem chrome_idempotent_witness:
  "count_elements ''wiki-header'' (body (buildLayout sample_env (buildLayout sample_env
        \<lparr>doc_title = ''Home'', body = [Element ''main'' ''wiki-content'' [] [Markup ''Welcome'']]\<rparr>))) = 1
   \<and> count_elements ''wiki-footer'' (body (buildLayout sample_env (buildLayout sample_env
        \<lparr>doc_title = ''Home'', body = [Element ''main'' ''wiki-content'' [] [Markup ''Welcome'']]\<rparr>))) = 1
   \<and> count_elements ''wiki-layout'' (body (buildLayout sample_env (buildLayout sample_env
        \<lparr>doc_title = ''Home'', body = [Element ''main'' ''wiki-content'' [] [Markup ''Welcome'']]\<rparr>))) = 1"
proof -
  let ?d = "\<lparr>doc_title = ''Home'', body = [Element ''main'' ''wiki-content'' [] [Markup ''Welcome'']]\<rparr>"
  have q: "count_elements ''wiki-header'' (body ?d) = 0" "count_elements ''wiki-footer'' (body ?d) = 0"
    "count_elements ''wiki-layout'' (body ?d) = 0" "querySelector ''wiki-content'' (body ?d)"
    by code_simp+
  note c = chrome_idempotent [of sample_env ?d]
  from c [THEN conjunct2, THEN conjunct1]
  have "count_elements ''wiki-header'' (body (buildLayout sample_env (buildLayout sample_env ?d))) = 1"
    unfolding q by simp
  moreover from c [THEN conjunct2, THEN conjunct2, THEN conjunct1]
  have "count_elements ''wiki-footer'' (body (buildLayout sample_env (buildLayout sample_env ?d))) = 1"
    unfolding q by simp
  moreover from c [THEN conjunct2, THEN conjunct2, THEN conjunct2]
  have "count_elements ''wiki-layout'' (body (buildLayout sample_env (buildLayout sample_env ?d))) = 1"
    unfolding q by simp
  ultimately show ?thesis by blast
qed


section \<open>Graph embeds: a container with unparsable data\<close>

lemma init_each_append:
  "init_each parse (xs @ ys) =
     (fst (init_each parse xs) @ fst (init_each parse ys),
      snd (init_each parse xs) @ snd (init_each parse ys))"
  by (induction xs) (simp_all add: Let_def split: prod.splits)

text \<open>
  In \<^verbatim>\<open>initDesmosEmbeds\<close> the error of an unparsable container is caught: it is logged,
  the container stays as it was, and the containers before and after it are initialised
  as they are without it.
\<close>

theorem init_embeds_local:
  assumes "has_iframe bad" and "parse (exprs_text bad) = None"
  shows "initDesmosEmbeds parse True (before @ bad # after) =
           (fst (initDesmosEmbeds parse True before) @ SyntaxError # fst (initDesmosEmbeds parse True after),
            snd (initDesmosEmbeds parse True before) @ bad # snd (initDesmosEmbeds parse True after))"
  using assms
  by (simp add: initDesmosEmbeds_def init_each_append embed_try_def Let_def split: prod.splits)

theorem init_embeds_local_witness:
  \<open>has_iframe (fresh_embed ''[{"latex":'')
   \<and> sample_parse (exprs_text (fresh_embed ''[{"latex":'')) = None
   \<and> fst (initDesmosEmbeds sample_parse True
            [fresh_embed ''["y=x^2"]'', fresh_embed ''[{"latex":'', fresh_embed ''["y=x^2"]''])
       = [SyntaxError]
   \<and> snd (initDesmosEmbeds sample_parse True
            [fresh_embed ''["y=x^2"]'', fresh_embed ''[{"latex":'', fresh_embed ''["y=x^2"]''])
       = snd (initDesmosEmbeds sample_parse True [fresh_embed ''["y=x^2"]''])
           @ fresh_embed ''[{"latex":''
           # snd (initDesmosEmbeds sample_parse True [fresh_embed ''["y=x^2"]''])\<close>
proof -
  have i: \<open>has_iframe (fresh_embed ''[{"latex":'')\<close> by code_simp
  have h: \<open>sample_parse (exprs_text (fresh_embed ''[{"latex":'')) = None\<close> by code_simp
  have w: \<open>fst (initDesmosEmbeds sample_parse True [fresh_embed ''["y=x^2"]'']) = []\<close> by code_simp
  from init_embeds_local [of \<open>fresh_embed ''[{"latex":''\<close> sample_parse
         \<open>[fresh_embed ''["y=x^2"]'']\<close> \<open>[fresh_embed ''["y=x^2"]'']\<close>] i h
  show ?thesis by (simp add: w)
qed


text \<open>
  C9 asks the same of every path that initialises embeds. \<^verbatim>\<open>wikiInitAllDesmos\<close> does
  not do it: at a container with unparsable data the error leaves the function, nothing
  is logged, and no container after it is touched.
\<close>

theorem wiki_init_aborts:
  assumes "parse (exprs_text bad) = None"
  shows "wikiInitAllDesmos parse desmos_loaded (bad # after) = (Some SyntaxError, bad # after)"
  using assms by (simp add: wikiInitAllDesmos_def wiki_init_one_def)

theorem wiki_init_aborts_witness:
  \<open>sample_parse (exprs_text (fresh_embed ''[{"latex":'')) = None
   \<and> wikiInitAllDesmos sample_parse True [fresh_embed ''[{"latex":'', fresh_embed ''["y=x^2"]'']
      = (Some SyntaxError, [fresh_embed ''[{"latex":'', fresh_embed ''["y=x^2"]''])\<close>
proof -
  have h: \<open>sample_parse (exprs_text (fresh_embed ''[{"latex":'')) = None\<close> by code_simp
  from wiki_init_aborts [of sample_parse \<open>fresh_embed ''[{"latex":''\<close> True
         \<open>[fresh_embed ''["y=x^2"]'']\<close>] h
  show ?thesis by blast
qed


section \<open>Search: the markup of the results\<close>

text \<open>
  C10: title, desc, url and the echoed query all pass through \<^verbatim>\<open>escapeHtml\<close>, and an
  escaped string holds no angle bracket, so no field opens or closes a tag. The url,
  though, is written into the attribute \<^verbatim>\<open>data-url="..."\<close>, and \<^verbatim>\<open>escapeHtml\<close> leaves
  the double quote as it is: a url with a double quote ends the attribute value and the
  rest of it is read as further attributes of the result row.
\<close>

theorem result_markup_injection:
  \<open>innerHTML (runSearch ''t''
      (Some [\<lparr>title = ''T'', url = ''x" onclick="alert(1)'', desc = None, tags = None\<rparr>]))
   = ''\<newline>      <div class="search-result-item" role="option" tabindex="0" data-url="x" onclick="alert(1)">''
     @ ''\<newline>        <div class="search-result-title">T</div>''
     @ ''\<newline>        \<newline>      </div>''\<close>
  by code_simp

end
